theory Spec2Isabelle
  imports Complex_Main "HOL-Library.Multiset"
begin

section \<open>The Sofomore coordinator of \<open>src/comocma/como.py\<close>\<close>

text \<open>
  The development embeds the coordination engine of the \<open>Sofomore\<close> class and the
  \<open>RankPenalizedFitness\<close> class. Python floats are idealised as \<open>real\<close>, Python
  integers are \<open>int\<close>, Python exceptions are values of \<open>py_error\<close> returned on the
  left of a sum. What the module imports from other packages (the single-objective
  solver, the non-dominated archive classes, \<open>cma.utilities.utils.ranks\<close>) is not part of
  the module: these collaborators are the fields of the record \<open>collaborators\<close>, and
  every function that calls one of them takes that record as its first argument.
\<close>

subsection \<open>Python lists\<close>

datatype py_error = IndexError | ValueError | AssertionError | TypeError

text \<open>
  The position that \<open>xs[i]\<close> reads or writes: an index from \<open>-len(xs)\<close> up to \<open>-1\<close>
  counts from the end, any other index outside \<open>range(len(xs))\<close> raises.
\<close>

definition py_index :: "'a list \<Rightarrow> int \<Rightarrow> py_error + nat" where
  "py_index xs i =
     (if 0 \<le> i \<and> i < int (length xs) then Inr (nat i)
      else if - int (length xs) \<le> i \<and> i < 0 then Inr (nat (int (length xs) + i))
      else Inl IndexError)"

definition py_nth :: "'a list \<Rightarrow> int \<Rightarrow> py_error + 'a" where
  "py_nth xs i = (case py_index xs i of Inl e \<Rightarrow> Inl e | Inr pos \<Rightarrow> Inr (xs ! pos))"

text \<open>An attribute store on the object \<open>xs[i]\<close>.\<close>

definition py_set :: "'a list \<Rightarrow> int \<Rightarrow> ('a \<Rightarrow> 'a) \<Rightarrow> py_error + 'a list" where
  "py_set xs i f =
     (case py_index xs i of Inl e \<Rightarrow> Inl e | Inr pos \<Rightarrow> Inr (xs[pos := f (xs ! pos)]))"

text \<open>The slices \<open>xs[:n]\<close>, \<open>xs[n:]\<close> and \<open>xs[a:b]\<close>; a negative bound counts from the end.\<close>

definition slice_bound :: "'a list \<Rightarrow> int \<Rightarrow> nat" where
  "slice_bound xs n = (if n < 0 then nat (int (length xs) + n) else nat n)"

definition slice_to :: "'a list \<Rightarrow> int \<Rightarrow> 'a list" where
  "slice_to xs n = take (slice_bound xs n) xs"

definition slice_from :: "'a list \<Rightarrow> int \<Rightarrow> 'a list" where
  "slice_from xs n = drop (slice_bound xs n) xs"

definition slice :: "'a list \<Rightarrow> int \<Rightarrow> int \<Rightarrow> 'a list" where
  "slice xs a b = drop (slice_bound xs a) (take (slice_bound xs b) xs)"

text \<open>\<open>range(n)\<close>: empty when \<open>n \<le> 0\<close>.\<close>

definition py_range :: "int \<Rightarrow> int list" where
  "py_range n = map int [0..<nat n]"

text \<open>\<open>xs.remove(x)\<close>: deletes the first occurrence, raises \<open>ValueError\<close> when there is none.\<close>

definition list_remove :: "'a list \<Rightarrow> 'a \<Rightarrow> py_error + 'a list" where
  "list_remove xs x = (if x \<in> set xs then Inr (remove1 x xs) else Inl ValueError)"

subsection \<open>Kernels, the coordinator's state, the collaborators\<close>

type_synonym point = "real list"
type_synonym objvec = "real list"

text \<open>A termination status is a dictionary; the empty dictionary is falsy (still running).\<close>

type_synonym stop_dict = "(string \<times> string) list"

text \<open>
  A kernel is an object: \<open>kid\<close> is its identity (Python compares solver objects by
  identity), \<open>core\<close> is the state of the single-objective solver, which only the solver's
  own methods read and write, and the other two fields are the attributes that
  \<open>Sofomore\<close> attaches to it.
\<close>

record 'c kernel =
  kid :: nat
  core :: 'c
  objective_values :: "objvec option"
  last_offspring_f_values :: "objvec list option"

datatype nda_kind = BiobjectiveNondominatedSortedList | NonDominatedList

text \<open>
  The attributes of a \<open>Sofomore\<close> instance. \<open>archive = None\<close> stands for the empty Python
  list that \<open>__init__\<close> stores; the leading underscore of \<open>_active_indices\<close>,
  \<open>_told_indices\<close>, \<open>_remaining_indices_to_ask\<close> and
  \<open>_ratio_nondom_offspring_incumbent\<close> is dropped.
\<close>

record ('c, 'fr) sofomore =
  kernels :: "'c kernel list"
  num_kernels :: int
  active_indices :: "int list"
  reference_point :: "objvec option"
  isarchive :: bool
  archive :: "'fr option"
  NDA :: "nda_kind option"
  offspring :: "(int \<times> point list) list"
  told_indices :: "int list"
  countiter :: int
  countevals :: int
  remaining_indices_to_ask :: "int list"
  best_hypervolume_pareto_front :: real
  epsilon_hypervolume_pareto_front :: real
  ratio_nondom_offspring_incumbent :: "int list"

text \<open>
  The collaborators. \<open>kernel_ask\<close>, \<open>kernel_tell\<close>, \<open>kernel_stop\<close> and
  \<open>kernel_incumbent\<close> are the solver's \<open>ask\<close>, \<open>tell\<close>, \<open>stop\<close> and \<open>incumbent\<close>;
  \<open>new_front\<close> is the constructor \<open>self.NDA(list, reference_point)\<close> of the archive class
  chosen in \<open>tell\<close>; \<open>front_contains\<close> is its \<open>in\<close>, \<open>front_len\<close> its \<open>len\<close>; \<open>ranks\<close>
  is \<open>cma.utilities.utils.ranks\<close>; \<open>restart\<close> is \<open>opts['restart']\<close>, where \<open>None\<close>
  as a result stands for a factory that raises.
\<close>

record ('c, 'fr) collaborators =
  kernel_ask :: "'c \<Rightarrow> point list"
  kernel_tell :: "'c \<Rightarrow> point list \<Rightarrow> real list \<Rightarrow> 'c"
  kernel_stop :: "'c \<Rightarrow> stop_dict"
  kernel_incumbent :: "'c \<Rightarrow> point"
  new_front :: "nda_kind \<Rightarrow> objvec option list \<Rightarrow> objvec option \<Rightarrow> 'fr"
  hypervolume_improvement :: "'fr \<Rightarrow> objvec \<Rightarrow> real"
  hypervolume :: "'fr \<Rightarrow> real"
  front_contains :: "'fr \<Rightarrow> objvec option \<Rightarrow> bool"
  add_list :: "'fr \<Rightarrow> objvec list \<Rightarrow> 'fr"
  front_len :: "'fr \<Rightarrow> nat"
  ranks :: "real list \<Rightarrow> int list"
  restart :: "(('c, 'fr) sofomore \<Rightarrow> 'c kernel list option) option"

subsection \<open>\<open>Sofomore.__init__\<close>\<close>

text \<open>
  The options are passed resolved: \<open>archive_opt\<close> is \<open>opts['archive']\<close>. The ordering
  key \<open>opts['update_order']\<close> and the restart factory are not stored in the state: the
  key is an argument of \<open>ask\<close>, the factory a collaborator.
\<close>

definition init :: "'c kernel list \<Rightarrow> bool \<Rightarrow> objvec option \<Rightarrow> py_error + ('c, 'fr) sofomore" where
  "init list_of_solvers_instances archive_opt ref =
     (if \<not> length list_of_solvers_instances > 0 then Inl AssertionError
      else Inr \<lparr>
        kernels = list_of_solvers_instances,
        num_kernels = int (length list_of_solvers_instances),
        active_indices = py_range (int (length list_of_solvers_instances)),
        reference_point = ref,
        isarchive = archive_opt,
        archive = None,
        NDA = None,
        offspring = [],
        told_indices = py_range (int (length list_of_solvers_instances)),
        countiter = 0,
        countevals = 0,
        remaining_indices_to_ask = py_range (int (length list_of_solvers_instances)),
        best_hypervolume_pareto_front = 0,
        epsilon_hypervolume_pareto_front = 1 / 10,
        ratio_nondom_offspring_incumbent =
          replicate (length list_of_solvers_instances) 0 \<rparr>)"

subsection \<open>\<open>Sofomore._indices_to_ask\<close> and \<open>Sofomore.ask\<close>\<close>

text \<open>
  \<open>sorted(xs, key = k)\<close> is the stable \<open>sort_key\<close>. The ordering key is a Python callable
  and the default one, \<open>sort_random\<close>, returns a fresh random number at every call. So
  each of the two \<open>sorted\<close> calls of \<open>_indices_to_ask\<close> takes the key values that the
  callable returned during that call, as a function of the index (neither sorted list
  repeats an index): \<open>key1\<close> for the sort of the remaining pool, \<open>key2\<close> for the sort of
  the active indices. A key that is a function of the index, such as \<open>sort_increasing\<close>,
  is \<open>key1 = key2\<close>.
\<close>

definition indices_to_ask ::
  "(int \<Rightarrow> 'k::linorder) \<Rightarrow> (int \<Rightarrow> 'k) \<Rightarrow> int \<Rightarrow> ('c, 'fr) sofomore
    \<Rightarrow> int list \<times> ('c, 'fr) sofomore" where
  "indices_to_ask key1 key2 number_to_ask st =
     (let sorted_indices = sort_key key1 (remaining_indices_to_ask st) in
      if number_to_ask \<le> int (length sorted_indices) then
        (slice_to sorted_indices number_to_ask,
         st\<lparr>remaining_indices_to_ask := slice_from sorted_indices number_to_ask\<rparr>)
      else
        (let val = number_to_ask - int (length sorted_indices);
             sorted_active = sort_key key2 (active_indices st)
         in (sorted_indices @ slice_to sorted_active val,
             st\<lparr>remaining_indices_to_ask := slice_from sorted_active val\<rparr>)))"

text \<open>The four ordering keys of the module that are functions of the index.\<close>

definition sort_even_odds :: "int \<Rightarrow> int" where
  "sort_even_odds i = i mod 2"

definition sort_odds_even :: "int \<Rightarrow> int" where
  "sort_odds_even i = - (i mod 2)"

definition sort_increasing :: "int \<Rightarrow> int" where
  "sort_increasing i = i"

definition sort_decreasing :: "int \<Rightarrow> int" where
  "sort_decreasing i = - i"

text \<open>The argument of \<open>ask\<close>: the string \<open>"all"\<close> or an integer.\<close>

datatype number_to_ask = All | Num int

definition requested :: "('c, 'fr) sofomore \<Rightarrow> number_to_ask \<Rightarrow> int" where
  "requested st arg = (case arg of All \<Rightarrow> int (length (active_indices st)) | Num n \<Rightarrow> n)"

text \<open>
  The head of \<open>ask\<close>: \<open>"all"\<close> is resolved, the assertion \<open>number_to_ask > 0\<close> is checked,
  a number larger than the count of active kernels is clipped to it.
\<close>

definition clipped :: "('c, 'fr) sofomore \<Rightarrow> number_to_ask \<Rightarrow> py_error + int" where
  "clipped st arg =
     (let n = requested st arg in
      if \<not> n > 0 then Inl AssertionError
      else if n > int (length (active_indices st)) then Inr (int (length (active_indices st)))
      else Inr n)"

text \<open>\<open>[self.kernels[i].incumbent for i in self._told_indices]\<close>\<close>

fun incumbents :: "('c, 'fr) collaborators \<Rightarrow> 'c kernel list \<Rightarrow> int list \<Rightarrow> py_error + point list" where
  "incumbents env ks [] = Inr []"
| "incumbents env ks (i # is) =
     (case py_nth ks i of
        Inl e \<Rightarrow> Inl e
      | Inr k \<Rightarrow>
          (case incumbents env ks is of
             Inl e \<Rightarrow> Inl e
           | Inr ps \<Rightarrow> Inr (kernel_incumbent env (core k) # ps)))"

text \<open>The loop of \<open>ask\<close> over the chosen indices; \<open>res\<close> and \<open>self.offspring\<close> grow.\<close>

fun ask_loop ::
  "('c, 'fr) collaborators \<Rightarrow> int list \<Rightarrow> point list \<Rightarrow> ('c, 'fr) sofomore
    \<Rightarrow> py_error + point list \<times> ('c, 'fr) sofomore" where
  "ask_loop env [] res st = Inr (res, st)"
| "ask_loop env (ikernel # rest) res st =
     (case py_nth (kernels st) ikernel of
        Inl e \<Rightarrow> Inl e
      | Inr k \<Rightarrow>
          (let offspring' = kernel_ask env (core k) in
           ask_loop env rest (res @ offspring')
             (st\<lparr>offspring := offspring st @ [(ikernel, offspring')]\<rparr>)))"

definition ask ::
  "('c, 'fr) collaborators \<Rightarrow> (int \<Rightarrow> 'k::linorder) \<Rightarrow> (int \<Rightarrow> 'k) \<Rightarrow> number_to_ask
    \<Rightarrow> ('c, 'fr) sofomore \<Rightarrow> py_error + point list \<times> ('c, 'fr) sofomore" where
  "ask env key1 key2 arg st =
     (case clipped st arg of
        Inl e \<Rightarrow> Inl e
      | Inr number_to_ask \<Rightarrow>
          (let st1 = st\<lparr>offspring := []\<rparr> in
           case incumbents env (kernels st1) (told_indices st1) of
             Inl e \<Rightarrow> Inl e
           | Inr res \<Rightarrow>
               (let (chosen, st2) = indices_to_ask key1 key2 number_to_ask st1
                in ask_loop env chosen res st2)))"

text \<open>
  The scheduler's part of consecutive \<open>ask\<close> calls: each round is the argument of one
  call with the key values of its two sorts. Between two calls nothing but
  \<open>_indices_to_ask\<close> writes \<open>_remaining_indices_to_ask\<close>; the active indices stay as they
  are as long as no kernel stops and none is added, removed or inactivated. The result
  lists the chosen indices of all rounds in order.
\<close>

fun ask_rounds ::
  "((int \<Rightarrow> 'k::linorder) \<times> (int \<Rightarrow> 'k) \<times> number_to_ask) list \<Rightarrow> ('c, 'fr) sofomore
    \<Rightarrow> py_error + int list \<times> ('c, 'fr) sofomore" where
  "ask_rounds [] st = Inr ([], st)"
| "ask_rounds ((key1, key2, arg) # rounds) st =
     (case clipped st arg of
        Inl e \<Rightarrow> Inl e
      | Inr number_to_ask \<Rightarrow>
          (let (chosen, st1) = indices_to_ask key1 key2 number_to_ask st in
           case ask_rounds rounds st1 of
             Inl e \<Rightarrow> Inl e
           | Inr (later, st2) \<Rightarrow> Inr (chosen @ later, st2)))"

subsection \<open>\<open>RankPenalizedFitness\<close>\<close>

text \<open>
  The attributes of a \<open>RankPenalizedFitness\<close> object (\<open>_debugging\<close>, which only
  prints, is left out) and its constructor.
\<close>

record rank_penalized_fitness =
  f_values :: "real list"
  g_list_values :: "real list list"
  base_prctile :: real
  g_scale :: real
  f_current_best :: real

definition RankPenalizedFitness :: "real list \<Rightarrow> real list list \<Rightarrow> rank_penalized_fitness" where
  "RankPenalizedFitness f_values' g_list_values' =
     \<lparr> f_values = f_values', g_list_values = g_list_values',
       base_prctile = 2 / 10, g_scale = 101 / 100, f_current_best = 0 \<rparr>"

text \<open>
  \<open>_f_from_index(f_values, i)\<close>. Both calls pass \<open>int(j)\<close> and \<open>int(np.ceil(j))\<close> of a
  \<open>j\<close> that was clamped to \<open>j \<ge> 0\<close>, so the index is a natural number here.
\<close>

definition f_from_index :: "rank_penalized_fitness \<Rightarrow> real list \<Rightarrow> nat \<Rightarrow> real" where
  "f_from_index self fs i =
     (let imax = int (length fs) - 1 in
      if imax < 0 then f_current_best self + real i
      else fs ! nat (min imax (int i)) + real_of_int (max (int i - imax) 0))"

text \<open>
  \<open>is_feasible *= g_is_feas\<close> on numpy arrays: elementwise when the shapes agree, a
  one-element right operand is broadcast, any other shape raises \<open>ValueError\<close>.
\<close>

definition times_feas :: "bool list \<Rightarrow> bool list \<Rightarrow> py_error + bool list" where
  "times_feas is_feasible g_is_feas =
     (if length g_is_feas = length is_feasible then
        Inr (map (\<lambda>(a, b). a \<and> b) (zip is_feasible g_is_feas))
      else if length g_is_feas = 1 then Inr (map (\<lambda>a. a \<and> hd g_is_feas) is_feasible)
      else Inl ValueError)"

text \<open>
  The list \<open>g_ranks\<close> of one constraint:
  \<open>[g - nb_feas + 1 if g >= nb_feas else 0 for g in ranks(g_values)]\<close>.
\<close>

definition g_ranks_of :: "(real list \<Rightarrow> int list) \<Rightarrow> real list \<Rightarrow> int list" where
  "g_ranks_of ranks' g_values =
     (let nb_feas = int (length (filter (\<lambda>v. v \<le> 0) g_values)) in
      map (\<lambda>g. if g \<ge> nb_feas then g - nb_feas + 1 else 0) (ranks' g_values))"

text \<open>The loop over \<open>self.g_list_values\<close>: it updates \<open>is_feasible\<close> and \<open>g_ranks_list\<close>.\<close>

fun constraints_loop ::
  "(real list \<Rightarrow> int list) \<Rightarrow> real list list \<Rightarrow> bool list \<Rightarrow> int list list
    \<Rightarrow> py_error + bool list \<times> int list list" where
  "constraints_loop ranks' [] is_feasible g_ranks_list = Inr (is_feasible, g_ranks_list)"
| "constraints_loop ranks' (g_values # rest) is_feasible g_ranks_list =
     (case times_feas is_feasible (map (\<lambda>v. v \<le> 0) g_values) of
        Inl e \<Rightarrow> Inl e
      | Inr is_feasible' \<Rightarrow>
          constraints_loop ranks' rest is_feasible'
            (g_ranks_list @ [g_ranks_of ranks' g_values]))"

text \<open>\<open>sum(g_ranks[i] for g_ranks in g_ranks_list)\<close>\<close>

fun rank_sum :: "int list list \<Rightarrow> nat \<Rightarrow> py_error + int" where
  "rank_sum [] i = Inr 0"
| "rank_sum (g_ranks # rest) i =
     (case py_nth g_ranks (int i) of
        Inl e \<Rightarrow> Inl e
      | Inr v \<Rightarrow> (case rank_sum rest i of Inl e \<Rightarrow> Inl e | Inr s \<Rightarrow> Inr (v + s)))"

text \<open>
  The value stored for one infeasible candidate, from the sum \<open>s\<close> of its \<open>g_ranks\<close>
  entries: the body of the second loop of \<open>__call__\<close> after the sum. The branch under
  \<open>if 11 < 3\<close> is dead code.
\<close>

definition interpolate :: "rank_penalized_fitness \<Rightarrow> real list \<Rightarrow> real \<Rightarrow> real" where
  "interpolate self sorted_feas_f_values j =
     (let j1 = nat \<lfloor>j\<rfloor>; j2 = nat \<lceil>j\<rceil>;
          f1 = f_from_index self sorted_feas_f_values j1;
          f2 = f_from_index self sorted_feas_f_values j2
      in if j2 > j1 then 0 + (j - real j1) * f2 + (real j2 - j) * f1 else f1)"

definition penalized_value ::
  "rank_penalized_fitness \<Rightarrow> real list \<Rightarrow> nat \<Rightarrow> int \<Rightarrow> py_error + real" where
  "penalized_value self sorted_feas_f_values len_idx_feas s =
     (let j0 = base_prctile self * (real len_idx_feas - 1);
          j = j0 + g_scale self * (real_of_int s - 1)
      in if \<not> j \<ge> base_prctile self * (real len_idx_feas - 1) then Inl AssertionError
         else Inr (interpolate self sorted_feas_f_values (max j 0)))"

fun penalize_loop ::
  "rank_penalized_fitness \<Rightarrow> real list \<Rightarrow> nat \<Rightarrow> int list list \<Rightarrow> nat list \<Rightarrow> real list
    \<Rightarrow> py_error + real list" where
  "penalize_loop self sorted_feas_f_values len_idx_feas g_ranks_list [] f = Inr f"
| "penalize_loop self sorted_feas_f_values len_idx_feas g_ranks_list (i # rest) f =
     (case rank_sum g_ranks_list i of
        Inl e \<Rightarrow> Inl e
      | Inr s \<Rightarrow>
          (case penalized_value self sorted_feas_f_values len_idx_feas s of
             Inl e \<Rightarrow> Inl e
           | Inr v \<Rightarrow>
               penalize_loop self sorted_feas_f_values len_idx_feas g_ranks_list rest
                 (f[i := v])))"

text \<open>
  \<open>try: self.f_current_best = sorted_feas_f_values[0]\<close>, \<open>except IndexError: pass\<close>
\<close>

definition remember :: "rank_penalized_fitness \<Rightarrow> real list \<Rightarrow> rank_penalized_fitness" where
  "remember self sorted_feas_f_values =
     (case sorted_feas_f_values of
        [] \<Rightarrow> self
      | best # _ \<Rightarrow> self\<lparr>f_current_best := best\<rparr>)"

text \<open>
  \<open>__call__\<close>: the result is the returned list with the object after the call (its
  \<open>f_values\<close> list is the returned one, mutated in place; \<open>f_current_best\<close> is
  overwritten only when there is a feasible candidate).
\<close>

definition call ::
  "(real list \<Rightarrow> int list) \<Rightarrow> rank_penalized_fitness
    \<Rightarrow> py_error + real list \<times> rank_penalized_fitness" where
  "call ranks' self =
     (let f = f_values self; n = length f in
      case constraints_loop ranks' (g_list_values self) (replicate n True) [] of
        Inl e \<Rightarrow> Inl e
      | Inr (is_feasible, g_ranks_list) \<Rightarrow>
          (let idx_feas = filter (\<lambda>i. is_feasible ! i) [0..<n];
               sorted_feas_f_values = sort (map (\<lambda>i. f ! i) idx_feas);
               self1 = remember self sorted_feas_f_values;
               infeasible = filter (\<lambda>i. i \<notin> set idx_feas) [0..<n]
           in case penalize_loop self1 sorted_feas_f_values (length idx_feas)
                     g_ranks_list infeasible f of
                Inl e \<Rightarrow> Inl e
              | Inr f' \<Rightarrow> Inr (f', self1\<lparr>f_values := f'\<rparr>)))"

text \<open>
  \<open>cma.utilities.utils.ranks\<close> belongs to the \<open>cma\<close> package, not to this module, and is
  a parameter of \<open>call\<close>. The package documents it as the ranks of the entries starting
  with zero, based on Python's stable \<open>sorted\<close>: the rank of an entry is the number of
  entries that sort before it, the smaller ones and the equal ones at an earlier
  position. The source relies on the zero base: its test \<open>g >= nb_feas\<close> tells the
  infeasible entries from the feasible ones only then.
\<close>

definition ranks_zero_based :: "real list \<Rightarrow> int list" where
  "ranks_zero_based a =
     map (\<lambda>i. int (length (filter (\<lambda>k. a ! k < a ! i \<or> (a ! k = a ! i \<and> k < i))
                               [0..<length a])))
       [0..<length a]"

text \<open>The same ranks counted from one, as a spec sentence has them.\<close>

definition ranks_one_based :: "real list \<Rightarrow> int list" where
  "ranks_one_based a = map (\<lambda>r. r + 1) (ranks_zero_based a)"

text \<open>
  The helper of the package sorts the positions by their entries,
  \<open>idx = sorted(range(len(a)), key=a.__getitem__)\<close>, and returns \<open>idx.index(i)\<close> for every
  position \<open>i\<close>. The section on \<open>RankPenalizedFitness\<close> proves that these are the ranks
  \<open>ranks_zero_based\<close>.
\<close>

definition argsort :: "real list \<Rightarrow> nat list" where
  "argsort a = sort_key (\<lambda>k. a ! k) [0..<length a]"

definition index_of :: "'a list \<Rightarrow> 'a \<Rightarrow> nat" where
  "index_of xs x = length (takeWhile (\<lambda>y. y \<noteq> x) xs)"

definition ranks_by_argsort :: "real list \<Rightarrow> int list" where
  "ranks_by_argsort a = map (\<lambda>i. int (index_of (argsort a) i)) [0..<length a]"

subsection \<open>The statements about \<open>RankPenalizedFitness\<close>, in the words of the claims\<close>

text \<open>
  These definitions are not translated from the source: they restate, for a batch \<open>f\<close>
  of f-values and a list \<open>gs\<close> of constraint-value lists, what the claims say the
  source computes, and the theorems compare them with \<open>call\<close>.
\<close>

definition nb_feasible :: "real list \<Rightarrow> nat" where
  "nb_feasible g = length (filter (\<lambda>v. v \<le> 0) g)"

text \<open>
  The penalty contribution of constraint \<open>g\<close> for candidate \<open>i\<close>: the zero-based
  ascending rank minus the number of feasible candidates plus one when the candidate is
  infeasible under \<open>g\<close>, and zero when it is feasible.
\<close>

definition penalty_contribution :: "real list \<Rightarrow> nat \<Rightarrow> int" where
  "penalty_contribution g i =
     (if g ! i > 0 then ranks_zero_based g ! i - int (nb_feasible g) + 1 else 0)"

text \<open>The same with the one-based rank, as the claim words it (and at least one).\<close>

definition claimed_penalty_contribution :: "real list \<Rightarrow> nat \<Rightarrow> int" where
  "claimed_penalty_contribution g i =
     (if g ! i > 0 then max 1 (ranks_one_based g ! i - int (nb_feasible g) + 1) else 0)"

definition globally_feasible :: "real list list \<Rightarrow> nat \<Rightarrow> bool" where
  "globally_feasible gs i = list_all (\<lambda>g. g ! i \<le> 0) gs"

definition feasible_f_values :: "real list \<Rightarrow> real list list \<Rightarrow> real list" where
  "feasible_f_values f gs =
     sort (map (\<lambda>i. f ! i) (filter (globally_feasible gs) [0..<length f]))"

text \<open>
  The order statistics of the sorted feasible f-values \<open>fs\<close>, extended beyond their
  count: the largest feasible value plus the integer excess over the last position; with
  no feasible value, the remembered best feasible value plus the position.
\<close>

definition order_statistic :: "real \<Rightarrow> real list \<Rightarrow> nat \<Rightarrow> real" where
  "order_statistic remembered fs k =
     (if fs = [] then remembered + real k
      else if k < length fs then fs ! k
      else last fs + real (k - (length fs - 1)))"

text \<open>
  The extension as the claim words it: beyond the count, the best feasible value plus
  the integer excess.
\<close>

definition claimed_order_statistic :: "real \<Rightarrow> real list \<Rightarrow> nat \<Rightarrow> real" where
  "claimed_order_statistic remembered fs k =
     (if fs = [] then remembered + real k
      else if k < length fs then fs ! k
      else hd fs + real (k - (length fs - 1)))"

definition interpolated :: "real \<Rightarrow> real list \<Rightarrow> real \<Rightarrow> real" where
  "interpolated remembered fs j =
     (if \<lfloor>j\<rfloor> = \<lceil>j\<rceil> then order_statistic remembered fs (nat \<lfloor>j\<rfloor>)
      else (j - of_int \<lfloor>j\<rfloor>) * order_statistic remembered fs (nat \<lceil>j\<rceil>)
           + (of_int \<lceil>j\<rceil> - j) * order_statistic remembered fs (nat \<lfloor>j\<rfloor>))"

definition penalty_level :: "real list \<Rightarrow> real list list \<Rightarrow> nat \<Rightarrow> real" where
  "penalty_level f gs i =
     max 0 (2 / 10 * (real (length (feasible_f_values f gs)) - 1)
            + 101 / 100 * (real_of_int (\<Sum>g\<leftarrow>gs. penalty_contribution g i) - 1))"

subsection \<open>The front of the incumbents, \<open>add\<close>, \<open>remove\<close>, \<open>stop\<close>\<close>

text \<open>\<open>kernel.stop()\<close>\<close>

definition stop_of :: "('c, 'fr) collaborators \<Rightarrow> 'c kernel \<Rightarrow> stop_dict" where
  "stop_of env k = kernel_stop env (core k)"

text \<open>
  The property \<open>pareto_front\<close>. Before the first \<open>tell\<close> the attribute \<open>self.NDA\<close> is
  \<open>None\<close>, and calling it raises \<open>TypeError\<close>.
\<close>

definition pareto_front :: "('c, 'fr) collaborators \<Rightarrow> ('c, 'fr) sofomore \<Rightarrow> py_error + 'fr" where
  "pareto_front env st =
     (case NDA st of
        None \<Rightarrow> Inl TypeError
      | Some kind \<Rightarrow>
          Inr (new_front env kind
                 (map objective_values (filter (\<lambda>k. objective_values k \<noteq> None) (kernels st)))
                 (reference_point st)))"

text \<open>
  The property \<open>pareto_set\<close>: the comprehension evaluates \<open>self.pareto_front\<close> once for
  every kernel, so not at all for an empty pool.
\<close>

definition pareto_set ::
  "('c, 'fr) collaborators \<Rightarrow> ('c, 'fr) sofomore \<Rightarrow> py_error + point list" where
  "pareto_set env st =
     (if kernels st = [] then Inr []
      else case pareto_front env st of
             Inl e \<Rightarrow> Inl e
           | Inr front \<Rightarrow>
               Inr (map (\<lambda>k. kernel_incumbent env (core k))
                      (filter (\<lambda>k. front_contains env front (objective_values k))
                         (kernels st))))"

text \<open>
  \<open>[idx for idx in range(self.num_kernels) if not self.kernels[idx].stop()]\<close>, the
  recomputation of the active indices in \<open>add\<close> and \<open>remove\<close>.
\<close>

fun running_indices ::
  "('c, 'fr) collaborators \<Rightarrow> 'c kernel list \<Rightarrow> int list \<Rightarrow> py_error + int list" where
  "running_indices env ks [] = Inr []"
| "running_indices env ks (idx # rest) =
     (case py_nth ks idx of
        Inl e \<Rightarrow> Inl e
      | Inr k \<Rightarrow>
          (case running_indices env ks rest of
             Inl e \<Rightarrow> Inl e
           | Inr found \<Rightarrow> Inr (if stop_of env k = [] then idx # found else found)))"

text \<open>
  \<open>add(kernels)\<close>; a single kernel is the one-element list. The attributes are written
  one after the other, so \<open>add_counted\<close> is the state when the comprehension raises.
\<close>

definition add_counted :: "'c kernel list \<Rightarrow> ('c, 'fr) sofomore \<Rightarrow> ('c, 'fr) sofomore" where
  "add_counted new st =
     st\<lparr>kernels := kernels st @ new, num_kernels := num_kernels st + int (length new)\<rparr>"

definition add ::
  "('c, 'fr) collaborators \<Rightarrow> 'c kernel list \<Rightarrow> ('c, 'fr) sofomore
    \<Rightarrow> py_error + ('c, 'fr) sofomore" where
  "add env new st =
     (let st1 = add_counted new st in
      case running_indices env (kernels st1) (py_range (num_kernels st1)) of
        Inl e \<Rightarrow> Inl e
      | Inr active \<Rightarrow>
          Inr (st1\<lparr>active_indices := active,
                   ratio_nondom_offspring_incumbent := replicate (nat (num_kernels st1)) 0\<rparr>))"

text \<open>
  \<open>remove(kernels)\<close>. An argument is a solver object, given by its identity; whether it is
  in the pool, and which element \<open>self.kernels.remove\<close> deletes, is decided by identity.
  The statement \<open>self.pareto_front.remove(...)\<close> acts on a front that the property has just
  built and that nothing keeps, so it leaves the state as it is.
\<close>

definition in_pool :: "'c kernel list \<Rightarrow> nat \<Rightarrow> bool" where
  "in_pool ks ident = (ident \<in> set (map kid ks))"

fun remove_object :: "'c kernel list \<Rightarrow> nat \<Rightarrow> 'c kernel list" where
  "remove_object [] ident = []"
| "remove_object (k # ks) ident = (if kid k = ident then ks else k # remove_object ks ident)"

fun remove_loop ::
  "('c, 'fr) collaborators \<Rightarrow> nat list \<Rightarrow> ('c, 'fr) sofomore \<Rightarrow> py_error + ('c, 'fr) sofomore" where
  "remove_loop env [] st = Inr st"
| "remove_loop env (ident # rest) st =
     (if in_pool (kernels st) ident then
        (let st1 = st\<lparr>kernels := remove_object (kernels st) ident\<rparr> in
         case pareto_front env st1 of
           Inl e \<Rightarrow> Inl e
         | Inr front \<Rightarrow> remove_loop env rest (st1\<lparr>num_kernels := num_kernels st1 - 1\<rparr>))
      else remove_loop env rest (st\<lparr>num_kernels := num_kernels st - 1\<rparr>))"

definition remove ::
  "('c, 'fr) collaborators \<Rightarrow> nat list \<Rightarrow> ('c, 'fr) sofomore \<Rightarrow> py_error + ('c, 'fr) sofomore" where
  "remove env idents st =
     (case remove_loop env idents st of
        Inl e \<Rightarrow> Inl e
      | Inr st1 \<Rightarrow>
          (case running_indices env (kernels st1) (py_range (num_kernels st1)) of
             Inl e \<Rightarrow> Inl e
           | Inr active \<Rightarrow> Inr (st1\<lparr>active_indices := active\<rparr>)))"

text \<open>
  \<open>stop()\<close>: \<open>None\<close> is the returned \<open>False\<close>, \<open>Some res\<close> the returned dictionary, as the
  list of its items in insertion order.
\<close>

fun stop_loop ::
  "('c, 'fr) collaborators \<Rightarrow> 'c kernel list \<Rightarrow> int list \<Rightarrow> (int \<times> stop_dict) list
    \<Rightarrow> py_error + (int \<times> stop_dict) list option" where
  "stop_loop env ks [] res = Inr (Some res)"
| "stop_loop env ks (i # rest) res =
     (case py_nth ks i of
        Inl e \<Rightarrow> Inl e
      | Inr k \<Rightarrow>
          (if stop_of env k \<noteq> [] then stop_loop env ks rest (res @ [(i, stop_of env k)])
           else Inr None))"

definition stop ::
  "('c, 'fr) collaborators \<Rightarrow> ('c, 'fr) sofomore \<Rightarrow> py_error + (int \<times> stop_dict) list option" where
  "stop env st = stop_loop env (kernels st) (py_range (num_kernels st)) []"

subsection \<open>\<open>Sofomore.tell\<close>\<close>

text \<open>
  The first loop of \<open>tell\<close>:
  \<open>self.kernels[self._told_indices[i]].objective_values = objective_values[i]\<close>.
  The pool is taken to hold every solver object once, so that a store on one element
  changes no other element.
\<close>

fun store_objective_values ::
  "int list \<Rightarrow> objvec list \<Rightarrow> nat \<Rightarrow> 'c kernel list \<Rightarrow> py_error + 'c kernel list" where
  "store_objective_values [] ovs i ks = Inr ks"
| "store_objective_values (t # ts) ovs i ks =
     (case py_nth ovs (int i) of
        Inl e \<Rightarrow> Inl e
      | Inr ov \<Rightarrow>
          (case py_set ks t (\<lambda>k. k\<lparr>objective_values := Some ov\<rparr>) of
             Inl e \<Rightarrow> Inl e
           | Inr ks' \<Rightarrow> store_objective_values ts ovs (Suc i) ks'))"

text \<open>
  \<open>[self.kernels[i].objective_values for i in range(self.num_kernels) if i != ikernel]\<close>
\<close>

fun other_objective_values ::
  "'c kernel list \<Rightarrow> int \<Rightarrow> int list \<Rightarrow> py_error + objvec option list" where
  "other_objective_values ks ikernel [] = Inr []"
| "other_objective_values ks ikernel (i # rest) =
     (if i \<noteq> ikernel then
        (case py_nth ks i of
           Inl e \<Rightarrow> Inl e
         | Inr k \<Rightarrow>
             (case other_objective_values ks ikernel rest of
                Inl e \<Rightarrow> Inl e
              | Inr vs \<Rightarrow> Inr (objective_values k # vs)))
      else other_objective_values ks ikernel rest)"

definition front_observed ::
  "('c, 'fr) collaborators \<Rightarrow> ('c, 'fr) sofomore \<Rightarrow> int \<Rightarrow> py_error + 'fr" where
  "front_observed env st ikernel =
     (case other_objective_values (kernels st) ikernel (py_range (num_kernels st)) of
        Inl e \<Rightarrow> Inl e
      | Inr vs \<Rightarrow>
          (case NDA st of
             None \<Rightarrow> Inl TypeError
           | Some kind \<Rightarrow> Inr (new_front env kind vs (reference_point st))))"

text \<open>
  The f-values handed to \<open>RankPenalizedFitness\<close>, \<open>[-float(u) for u in
  hypervolume_improvements]\<close>, for the offspring of \<open>ikernel\<close> whose objective vectors are
  \<open>objective_values[start:start+len(offspring)]\<close>.
\<close>

definition baseline_f_values ::
  "('c, 'fr) collaborators \<Rightarrow> ('c, 'fr) sofomore \<Rightarrow> int \<Rightarrow> objvec list \<Rightarrow> nat \<Rightarrow> nat
    \<Rightarrow> py_error + real list" where
  "baseline_f_values env st ikernel ovs start len_offspring =
     (case front_observed env st ikernel of
        Inl e \<Rightarrow> Inl e
      | Inr front \<Rightarrow>
          (let hypervolume_improvements =
                 map (hypervolume_improvement env front)
                   (slice ovs (int start) (int start + int len_offspring))
           in Inr (map (\<lambda>u. - u) hypervolume_improvements)))"

text \<open>
  \<open>penalized_f_values()\<close>, the fitness that \<open>kernel.tell\<close> receives:
  \<open>RankPenalizedFitness\<close> of the baseline and of the slices \<open>g_values\<close> of the
  constraint lists, called once.
\<close>

definition penalized_f_values ::
  "('c, 'fr) collaborators \<Rightarrow> real list \<Rightarrow> real list list \<Rightarrow> nat \<Rightarrow> nat
    \<Rightarrow> py_error + real list" where
  "penalized_f_values env baseline constraints_values start len_offspring =
     (let g_values = map (\<lambda>constraint.
                            slice constraint (int start) (int start + int len_offspring))
                       constraints_values
      in case call (ranks env) (RankPenalizedFitness baseline g_values) of
           Inl e \<Rightarrow> Inl e
         | Inr (f, _) \<Rightarrow> Inr f)"

text \<open>
  The restart inside \<open>try\<close>: a factory that raises leaves the state as it is; otherwise
  the told indices get \<open>self.num_kernels\<close> and \<open>add\<close> runs, and an exception of \<open>add\<close> is
  swallowed after \<open>add\<close> has extended the pool and its count.
\<close>

definition try_restart ::
  "('c, 'fr) collaborators \<Rightarrow> (('c, 'fr) sofomore \<Rightarrow> 'c kernel list option)
    \<Rightarrow> ('c, 'fr) sofomore \<Rightarrow> ('c, 'fr) sofomore" where
  "try_restart env factory st =
     (case factory st of
        None \<Rightarrow> st
      | Some kernel_to_add \<Rightarrow>
          (let st1 = st\<lparr>told_indices := told_indices st @ [num_kernels st]\<rparr> in
           case add env kernel_to_add st1 of
             Inl e \<Rightarrow> add_counted kernel_to_add st1
           | Inr st2 \<Rightarrow> st2))"

text \<open>
  \<open>kernel._last_offspring_f_values = objective_values[start:start+len(offspring)]\<close>, for
  the kernel object at position \<open>pos\<close> of the pool.
\<close>

definition store_last_f ::
  "nat \<Rightarrow> objvec list \<Rightarrow> ('c, 'fr) sofomore \<Rightarrow> ('c, 'fr) sofomore" where
  "store_last_f pos last_f st =
     st\<lparr>kernels := (kernels st)
          [pos := (kernels st ! pos)\<lparr>last_offspring_f_values := Some last_f\<rparr>]\<rparr>"

text \<open>
  The body of the loop over \<open>self.offspring\<close>, for the pair \<open>(ikernel, offspring)\<close> and
  the position \<open>start\<close> of its first objective vector. The variable \<open>kernel\<close> is the
  object at the position \<open>pos\<close> that \<open>self.kernels[ikernel]\<close> reads; \<open>add\<close> appends, so it
  stays there. The logger call, which is wrapped in \<open>try\<close> and changes nothing of the
  coordinator, is left out.
\<close>

definition tell_step ::
  "('c, 'fr) collaborators \<Rightarrow> objvec list \<Rightarrow> real list list \<Rightarrow> int \<times> point list
    \<Rightarrow> ('c, 'fr) sofomore \<Rightarrow> nat \<Rightarrow> py_error + ('c, 'fr) sofomore" where
  "tell_step env ovs constraints_values pair st start =
     (let ikernel = fst pair; offspring' = snd pair in
      case baseline_f_values env st ikernel ovs start (length offspring') of
        Inl e \<Rightarrow> Inl e
      | Inr baseline \<Rightarrow>
      (case py_index (kernels st) ikernel of
        Inl e \<Rightarrow> Inl e
      | Inr pos \<Rightarrow>
      (case penalized_f_values env baseline constraints_values start (length offspring') of
        Inl e \<Rightarrow> Inl e
      | Inr fitness \<Rightarrow>
          (let k = kernels st ! pos;
               k1 = k\<lparr>core := kernel_tell env (core k) offspring' fitness\<rparr>;
               st1 = st\<lparr>kernels := (kernels st)[pos := k1]\<rparr>;
               last_f = slice ovs (int start) (int start + int (length offspring'))
           in if stop_of env k1 \<noteq> [] then
                (case list_remove (active_indices st1) ikernel of
                   Inl e \<Rightarrow> Inl e
                 | Inr active \<Rightarrow>
                     (let st2 = st1\<lparr>active_indices := active\<rparr> in
                      case restart env of
                        None \<Rightarrow> Inr (store_last_f pos last_f st2)
                      | Some factory \<Rightarrow>
                          if ''timeout'' \<notin> set (map fst (stop_of env k1))
                          then Inr (store_last_f pos last_f (try_restart env factory st2))
                          else Inr (store_last_f pos last_f st2)))
              else Inr (store_last_f pos last_f st1)))))"

fun tell_loop ::
  "('c, 'fr) collaborators \<Rightarrow> objvec list \<Rightarrow> real list list \<Rightarrow> (int \<times> point list) list
    \<Rightarrow> ('c, 'fr) sofomore \<Rightarrow> nat \<Rightarrow> py_error + ('c, 'fr) sofomore" where
  "tell_loop env ovs constraints_values [] st start = Inr st"
| "tell_loop env ovs constraints_values (pair # rest) st start =
     (case tell_step env ovs constraints_values pair st start of
        Inl e \<Rightarrow> Inl e
      | Inr st1 \<Rightarrow>
          tell_loop env ovs constraints_values rest st1 (start + length (snd pair)))"

text \<open>The update of the best hypervolume and of the convergence gap.\<close>

definition update_hypervolume :: "real \<Rightarrow> ('c, 'fr) sofomore \<Rightarrow> ('c, 'fr) sofomore" where
  "update_hypervolume current_hypervolume st =
     (let epsilon = \<bar>current_hypervolume - best_hypervolume_pareto_front st\<bar>;
          st1 = (if epsilon \<noteq> 0
                 then st\<lparr>epsilon_hypervolume_pareto_front :=
                            min (epsilon_hypervolume_pareto_front st) epsilon\<rparr>
                 else st)
      in st1\<lparr>best_hypervolume_pareto_front :=
               max (best_hypervolume_pareto_front st1) current_hypervolume\<rparr>)"

text \<open>The update of the archive when \<open>self.isarchive\<close> holds.\<close>

definition update_archive ::
  "('c, 'fr) collaborators \<Rightarrow> objvec list \<Rightarrow> ('c, 'fr) sofomore \<Rightarrow> py_error + ('c, 'fr) sofomore" where
  "update_archive env ovs st =
     (if isarchive st then
        (if (case archive st of None \<Rightarrow> True | Some a \<Rightarrow> front_len env a = 0) then
           (case NDA st of
              None \<Rightarrow> Inl TypeError
            | Some kind \<Rightarrow>
                Inr (st\<lparr>archive := Some (new_front env kind (map Some ovs) (reference_point st))\<rparr>))
         else Inr (st\<lparr>archive := map_option (\<lambda>a. add_list env a ovs) (archive st)\<rparr>))
      else Inr st)"

text \<open>
  \<open>tell(solutions, objective_values, constraints_values)\<close>. The archive class is chosen
  at the first call from \<open>len(objective_values[0])\<close>.
\<close>

definition tell ::
  "('c, 'fr) collaborators \<Rightarrow> point list \<Rightarrow> objvec list \<Rightarrow> real list list
    \<Rightarrow> ('c, 'fr) sofomore \<Rightarrow> py_error + ('c, 'fr) sofomore" where
  "tell env solutions ovs constraints_values st =
     (if length solutions = 0 then Inr st
      else
        case (case NDA st of
                Some kind \<Rightarrow> Inr kind
              | None \<Rightarrow>
                  (case py_nth ovs 0 of
                     Inl e \<Rightarrow> Inl e
                   | Inr first \<Rightarrow>
                       Inr (if length first = 2 then BiobjectiveNondominatedSortedList
                            else NonDominatedList))) of
          Inl e \<Rightarrow> Inl e
        | Inr kind \<Rightarrow>
            (case store_objective_values (told_indices st) ovs 0 (kernels st) of
               Inl e \<Rightarrow> Inl e
             | Inr ks \<Rightarrow>
                 (let start = length (told_indices st);
                      st1 = st\<lparr>NDA := Some kind, kernels := ks, told_indices := []\<rparr>
                  in case tell_loop env ovs constraints_values (offspring st1) st1 start of
                       Inl e \<Rightarrow> Inl e
                     | Inr st2 \<Rightarrow>
                         (let st3 = st2\<lparr>told_indices :=
                                           told_indices st2 @ map fst (offspring st2)\<rparr>
                          in case pareto_front env st3 of
                               Inl e \<Rightarrow> Inl e
                             | Inr front \<Rightarrow>
                                 (case update_archive env ovs
                                         (update_hypervolume (hypervolume env front) st3) of
                                    Inl e \<Rightarrow> Inl e
                                  | Inr st4 \<Rightarrow>
                                      Inr (st4\<lparr>countiter := countiter st4 + 1,
                                               countevals := countevals st4
                                                 + int (length ovs)\<rparr>))))))"

subsection \<open>A front in the words of the spec\<close>

text \<open>
  Modelled from the spec: the archive classes \<open>NonDominatedList\<close> (module
  \<open>nondominatedarchive\<close>) and \<open>BiobjectiveNondominatedSortedList\<close> (package
  \<open>moarchiving\<close>) are not among the sources. The spec describes the front as the set of
  mutually non-dominated objective vectors among the given ones and asks that it equal
  the brute-force non-dominated subset; \<open>None\<close> entries are excluded. This front serves
  as the collaborator of the scenarios below, where a front is the pair of the reference
  point and the non-dominated vectors.
\<close>

definition dominates :: "objvec \<Rightarrow> objvec \<Rightarrow> bool" where
  "dominates a b = (list_all2 (\<le>) a b \<and> a \<noteq> b)"

definition nondominated :: "objvec list \<Rightarrow> objvec list" where
  "nondominated vs = remdups (filter (\<lambda>v. \<not> list_ex (\<lambda>w. dominates w v) vs) vs)"

definition spec_front ::
  "nda_kind \<Rightarrow> objvec option list \<Rightarrow> objvec option \<Rightarrow> objvec option \<times> objvec list" where
  "spec_front kind vs ref = (ref, nondominated (map the (filter (\<lambda>v. v \<noteq> None) vs)))"

text \<open>
  The hypervolume of a front of two objectives: the area, below the reference point,
  that its vectors dominate, swept in the order of the first objective. The improvement
  of a vector is the gain of area when it joins the front.
\<close>

fun sweep :: "real \<Rightarrow> real \<Rightarrow> objvec list \<Rightarrow> real" where
  "sweep rx prev_y [] = 0"
| "sweep rx prev_y (p # ps) =
     (if p ! 0 < rx \<and> p ! 1 < prev_y
      then (rx - p ! 0) * (prev_y - p ! 1) + sweep rx (p ! 1) ps
      else sweep rx prev_y ps)"

definition area :: "objvec option \<times> objvec list \<Rightarrow> real" where
  "area front =
     (case fst front of
        None \<Rightarrow> 0
      | Some r \<Rightarrow> sweep (r ! 0) (r ! 1) (sort_key (\<lambda>p. p ! 0) (nondominated (snd front))))"

definition area_gain :: "objvec option \<times> objvec list \<Rightarrow> objvec \<Rightarrow> real" where
  "area_gain front p = area (fst front, p # snd front) - area front"

subsection \<open>Scenarios\<close>

text \<open>
  A stand-in solver for the scenarios: its state is its mean and its termination status;
  it samples two points around the mean, and \<open>tell\<close> leaves it as it is. \<open>toy\<close> builds a
  kernel object from its identity, mean, termination status and the two attributes that
  \<open>Sofomore\<close> attaches.
\<close>

type_synonym toy_core = "point \<times> stop_dict"

type_synonym toy_front = "objvec option \<times> objvec list"

definition toy ::
  "nat \<Rightarrow> point \<Rightarrow> stop_dict \<Rightarrow> objvec option \<Rightarrow> objvec list option \<Rightarrow> toy_core kernel" where
  "toy ident mean status ov last_f =
     \<lparr> kid = ident, core = (mean, status), objective_values = ov,
       last_offspring_f_values = last_f \<rparr>"

definition toy_env :: "(toy_core, toy_front) collaborators" where
  "toy_env =
     \<lparr> kernel_ask = (\<lambda>c. [map (\<lambda>x. x + 1 / 10) (fst c), map (\<lambda>x. x - 1 / 10) (fst c)]),
       kernel_tell = (\<lambda>c offspring' fitness. c),
       kernel_stop = snd,
       kernel_incumbent = fst,
       new_front = spec_front,
       hypervolume_improvement = area_gain,
       hypervolume = area,
       front_contains = (\<lambda>front v. case v of None \<Rightarrow> False | Some x \<Rightarrow> x \<in> set (snd front)),
       add_list = (\<lambda>front vs. (fst front, nondominated (snd front @ vs))),
       front_len = (\<lambda>front. length (snd front)),
       ranks = ranks_zero_based,
       restart = None \<rparr>"

text \<open>
  The same with solvers that stop at their first \<open>tell\<close>, and with a restart factory
  that returns one new kernel.
\<close>

definition restarting_env :: "(toy_core, toy_front) collaborators" where
  "restarting_env =
     toy_env\<lparr>kernel_tell := (\<lambda>c offspring' fitness. (fst c, [(''tolx'', ''1e-4'')])),
             restart := Some (\<lambda>s. Some [toy (nat (num_kernels s)) [0, 0] [] None None])\<rparr>"

text \<open>
  The scenario P6 of the spec: three kernels, two objectives, the reference point
  \<open>(1.1, 1.1)\<close>, the ordering key \<open>sort_increasing\<close>, \<open>ask(2)\<close> and the \<open>tell\<close> that
  follows it, with three objective vectors for the incumbents and two for the offspring
  of each asked kernel. The states are written out: \<open>p6_start\<close> after construction,
  \<open>p6_asked\<close> after \<open>ask(2)\<close>, which returned \<open>p6_solutions\<close>, \<open>p6_stored\<close> inside \<open>tell\<close>
  when the loop over the offspring starts, \<open>p6_told\<close> after \<open>tell\<close>, and \<open>p6_restarted\<close>
  after the same \<open>tell\<close> with the restarting solvers. The lemmas of the section on the
  scenarios show that the operations produce them.
\<close>

definition p6_kernels :: "toy_core kernel list" where
  "p6_kernels =
     [toy 0 [0, 0] [] None None, toy 1 [1 / 2, 1 / 2] [] None None, toy 2 [1, 1] [] None None]"

definition p6_start :: "(toy_core, toy_front) sofomore" where
  "p6_start =
     \<lparr> kernels = p6_kernels, num_kernels = 3, active_indices = [0, 1, 2],
       reference_point = Some [11 / 10, 11 / 10], isarchive = True, archive = None,
       NDA = None, offspring = [], told_indices = [0, 1, 2], countiter = 0, countevals = 0,
       remaining_indices_to_ask = [0, 1, 2], best_hypervolume_pareto_front = 0,
       epsilon_hypervolume_pareto_front = 1 / 10,
       ratio_nondom_offspring_incumbent = [0, 0, 0] \<rparr>"

definition p6_asked :: "(toy_core, toy_front) sofomore" where
  "p6_asked =
     p6_start\<lparr>offspring := [(0, [[1 / 10, 1 / 10], [- (1 / 10), - (1 / 10)]]),
                            (1, [[3 / 5, 3 / 5], [2 / 5, 2 / 5]])],
              remaining_indices_to_ask := [2]\<rparr>"

definition p6_solutions :: "point list" where
  "p6_solutions =
     [[0, 0], [1 / 2, 1 / 2], [1, 1],
      [1 / 10, 1 / 10], [- (1 / 10), - (1 / 10)], [3 / 5, 3 / 5], [2 / 5, 2 / 5]]"

definition p6_objective_values :: "objvec list" where
  "p6_objective_values =
     [[1 / 10, 9 / 10], [1 / 2, 1 / 2], [9 / 10, 1 / 10],
      [2 / 10, 7 / 10], [1 / 20, 1], [4 / 10, 4 / 10], [6 / 10, 6 / 10]]"

definition p6_stored :: "(toy_core, toy_front) sofomore" where
  "p6_stored =
     p6_asked\<lparr>NDA := Some BiobjectiveNondominatedSortedList,
              kernels := [toy 0 [0, 0] [] (Some [1 / 10, 9 / 10]) None,
                          toy 1 [1 / 2, 1 / 2] [] (Some [1 / 2, 1 / 2]) None,
                          toy 2 [1, 1] [] (Some [9 / 10, 1 / 10]) None],
              told_indices := []\<rparr>"

definition p6_archive :: toy_front where
  "p6_archive =
     (Some [11 / 10, 11 / 10],
      [[1 / 10, 9 / 10], [9 / 10, 1 / 10], [1 / 5, 7 / 10], [1 / 20, 1], [2 / 5, 2 / 5]])"

definition p6_told :: "(toy_core, toy_front) sofomore" where
  "p6_told =
     p6_stored\<lparr>kernels := [toy 0 [0, 0] [] (Some [1 / 10, 9 / 10])
                             (Some [[1 / 5, 7 / 10], [1 / 20, 1]]),
                           toy 1 [1 / 2, 1 / 2] [] (Some [1 / 2, 1 / 2])
                             (Some [[2 / 5, 2 / 5], [3 / 5, 3 / 5]]),
                           toy 2 [1, 1] [] (Some [9 / 10, 1 / 10]) None],
               archive := Some p6_archive, told_indices := [0, 1],
               countiter := 1, countevals := 7,
               best_hypervolume_pareto_front := 13 / 25\<rparr>"

definition p6_restarted :: "(toy_core, toy_front) sofomore" where
  "p6_restarted =
     p6_stored\<lparr>kernels := [toy 0 [0, 0] [(''tolx'', ''1e-4'')] (Some [1 / 10, 9 / 10])
                             (Some [[1 / 5, 7 / 10], [1 / 20, 1]]),
                           toy 1 [1 / 2, 1 / 2] [(''tolx'', ''1e-4'')] (Some [1 / 2, 1 / 2])
                             (Some [[2 / 5, 2 / 5], [3 / 5, 3 / 5]]),
                           toy 2 [1, 1] [] (Some [9 / 10, 1 / 10]) None,
                           toy 3 [0, 0] [] None None,
                           toy 4 [0, 0] [] None None],
               num_kernels := 5, active_indices := [2, 3, 4],
               archive := Some p6_archive, told_indices := [3, 4, 0, 1],
               countiter := 1, countevals := 7,
               best_hypervolume_pareto_front := 13 / 25,
               ratio_nondom_offspring_incumbent := [0, 0, 0, 0, 0]\<rparr>"

text \<open>The state of P6 after \<open>remove\<close> was called with an object that is not in the pool.\<close>

definition p6_drifted :: "(toy_core, toy_front) sofomore" where
  "p6_drifted = p6_told\<lparr>num_kernels := 2, active_indices := [0, 1]\<rparr>"

text \<open>
  Key values that \<open>sort_random\<close> can return during three sorts, and the state of the
  three-kernel pool in the middle of a cycle, after a first \<open>ask(2)\<close> chose the kernels
  \<open>0\<close> and \<open>1\<close>.
\<close>

definition draw_a :: "int \<Rightarrow> real" where
  "draw_a i = (if i = 0 then 1 / 10 else if i = 1 then 2 / 10 else 3 / 10)"

definition draw_b :: "int \<Rightarrow> real" where
  "draw_b i = (if i = 2 then 1 / 10 else if i = 0 then 5 / 10 else 9 / 10)"

definition draw_c :: "int \<Rightarrow> real" where
  "draw_c i = (if i = 0 then 3 / 10 else 6 / 10)"

definition mid_cycle :: "(toy_core, toy_front) sofomore" where
  "mid_cycle = p6_start\<lparr>remaining_indices_to_ask := [2]\<rparr>"

text \<open>A pool of two kernels that have both stopped.\<close>

definition halted :: "(toy_core, toy_front) sofomore" where
  "halted =
     \<lparr> kernels = [toy 0 [0, 0] [(''tolx'', ''1e-4'')] None None,
                  toy 1 [1, 1] [(''maxiter'', ''100'')] None None],
       num_kernels = 2, active_indices = [0, 1],
       reference_point = Some [11 / 10, 11 / 10], isarchive = True, archive = None,
       NDA = None, offspring = [], told_indices = [0, 1], countiter = 0, countevals = 0,
       remaining_indices_to_ask = [0, 1], best_hypervolume_pareto_front = 0,
       epsilon_hypervolume_pareto_front = 1 / 10,
       ratio_nondom_offspring_incumbent = [0, 0] \<rparr>"

text \<open>
  Two kernels created from the same starting point, as \<open>get_cmas(2 * [x0], sigma0)\<close>
  creates them: \<open>twin_start\<close> after construction, \<open>twin_asked\<close> after \<open>ask(1)\<close>, which
  returned \<open>twin_solutions\<close>, \<open>twin_told\<close> after the \<open>tell\<close> that stores the objective
  vector of the common incumbent for both, \<open>twin_removed\<close> after the first kernel was
  removed.
\<close>

definition twin_start :: "(toy_core, toy_front) sofomore" where
  "twin_start =
     \<lparr> kernels = [toy 0 [0, 0] [] None None, toy 1 [0, 0] [] None None],
       num_kernels = 2, active_indices = [0, 1],
       reference_point = Some [11 / 10, 11 / 10], isarchive = True, archive = None,
       NDA = None, offspring = [], told_indices = [0, 1], countiter = 0, countevals = 0,
       remaining_indices_to_ask = [0, 1], best_hypervolume_pareto_front = 0,
       epsilon_hypervolume_pareto_front = 1 / 10,
       ratio_nondom_offspring_incumbent = [0, 0] \<rparr>"

definition twin_asked :: "(toy_core, toy_front) sofomore" where
  "twin_asked =
     twin_start\<lparr>offspring := [(0, [[1 / 10, 1 / 10], [- (1 / 10), - (1 / 10)]])],
                remaining_indices_to_ask := [1]\<rparr>"

definition twin_solutions :: "point list" where
  "twin_solutions = [[0, 0], [0, 0], [1 / 10, 1 / 10], [- (1 / 10), - (1 / 10)]]"

definition twin_objective_values :: "objvec list" where
  "twin_objective_values = [[1 / 2, 1 / 2], [1 / 2, 1 / 2], [4 / 5, 4 / 5], [9 / 10, 9 / 10]]"

definition twin_told :: "(toy_core, toy_front) sofomore" where
  "twin_told =
     twin_asked\<lparr>kernels := [toy 0 [0, 0] [] (Some [1 / 2, 1 / 2])
                              (Some [[4 / 5, 4 / 5], [9 / 10, 9 / 10]]),
                            toy 1 [0, 0] [] (Some [1 / 2, 1 / 2]) None],
                archive := Some (Some [11 / 10, 11 / 10], [[1 / 2, 1 / 2]]),
                NDA := Some BiobjectiveNondominatedSortedList,
                told_indices := [0], countiter := 1, countevals := 4,
                best_hypervolume_pareto_front := 9 / 25\<rparr>"

definition twin_removed :: "(toy_core, toy_front) sofomore" where
  "twin_removed =
     twin_told\<lparr>kernels := [toy 1 [0, 0] [] (Some [1 / 2, 1 / 2]) None],
               num_kernels := 1, active_indices := [0]\<rparr>"

subsection \<open>The invariant of the loop of \<open>tell\<close>\<close>

text \<open>
  A relation between the state before and after some iterations of the loop over
  \<open>self.offspring\<close>, used in the proofs: the told indices have grown by the indices from
  the old count of kernels up to the new one, and the counters, the offspring and the
  archive class are as before.
\<close>

definition grows :: "('c, 'fr) sofomore \<Rightarrow> ('c, 'fr) sofomore \<Rightarrow> bool" where
  "grows st st' =
     (num_kernels st \<le> num_kernels st'
      \<and> told_indices st' = told_indices st @ [num_kernels st..num_kernels st' - 1]
      \<and> countiter st' = countiter st \<and> countevals st' = countevals st
      \<and> offspring st' = offspring st \<and> NDA st' = NDA st)"

section \<open>The scheduler\<close>


lemma slice_to_pos: "0 \<le> n \<Longrightarrow> slice_to xs n = take (nat n) xs"
  by (simp add: slice_to_def slice_bound_def)

lemma slice_from_pos: "0 \<le> n \<Longrightarrow> slice_from xs n = drop (nat n) xs"
  by (simp add: slice_from_def slice_bound_def)

lemma indices_to_ask_active:
  "active_indices (snd (indices_to_ask key1 key2 n st)) = active_indices st"
  by (simp add: indices_to_ask_def Let_def)

lemma requested_active:
  "active_indices st' = active_indices st \<Longrightarrow> requested st' arg = requested st arg"
  by (simp add: requested_def split: number_to_ask.splits)

lemma clipped_pos:
  "0 < requested st arg \<Longrightarrow>
     clipped st arg = Inr (min (requested st arg) (int (length (active_indices st))))"
  by (simp add: clipped_def Let_def min_def)

lemma indices_to_ask_small:
  assumes "0 \<le> n" "n \<le> int (length (remaining_indices_to_ask st))"
  shows "fst (indices_to_ask key1 key2 n st)
           = take (nat n) (sort_key key1 (remaining_indices_to_ask st))"
    and "remaining_indices_to_ask (snd (indices_to_ask key1 key2 n st))
           = drop (nat n) (sort_key key1 (remaining_indices_to_ask st))"
  using assms by (simp_all add: indices_to_ask_def Let_def slice_to_pos slice_from_pos)

lemma indices_to_ask_large:
  assumes "\<not> n \<le> int (length (remaining_indices_to_ask st))"
  shows "fst (indices_to_ask key1 key2 n st)
           = sort_key key1 (remaining_indices_to_ask st)
             @ take (nat n - length (remaining_indices_to_ask st))
                 (sort_key key2 (active_indices st))"
    and "remaining_indices_to_ask (snd (indices_to_ask key1 key2 n st))
           = drop (nat n - length (remaining_indices_to_ask st))
               (sort_key key2 (active_indices st))"
  using assms
  by (simp_all add: indices_to_ask_def Let_def slice_to_pos slice_from_pos nat_diff_distrib)

lemma ask_rounds_Cons:
  assumes "0 < requested st arg"
  shows "ask_rounds ((key1, key2, arg) # rounds) st =
     (case ask_rounds rounds
             (snd (indices_to_ask key1 key2
                     (min (requested st arg) (int (length (active_indices st)))) st)) of
        Inl e \<Rightarrow> Inl e
      | Inr (later, st2) \<Rightarrow>
          Inr (fst (indices_to_ask key1 key2
                      (min (requested st arg) (int (length (active_indices st)))) st) @ later,
               st2))"
  using assms by (simp add: clipped_pos case_prod_beta)

lemma ask_rounds_total:
  assumes "\<forall>r\<in>set rounds. 0 < requested st (snd (snd r))"
  shows "\<exists>chosen st'. ask_rounds rounds st = Inr (chosen, st')"
  using assms
proof (induction rounds arbitrary: st)
  case Nil
  show ?case by simp
next
  case (Cons r rounds)
  obtain key1 key2 arg where r: "r = (key1, key2, arg)" by (cases r) auto
  let ?n = "min (requested st arg) (int (length (active_indices st)))"
  let ?st1 = "snd (indices_to_ask key1 key2 ?n st)"
  from Cons.prems r have pos: "0 < requested st arg" by simp
  have "\<forall>r\<in>set rounds. 0 < requested ?st1 (snd (snd r))"
    using Cons.prems by (simp add: requested_active [OF indices_to_ask_active])
  from Cons.IH [OF this] obtain later st2 where "ask_rounds rounds ?st1 = Inr (later, st2)"
    by blast
  then show ?case by (simp add: r ask_rounds_Cons [OF pos] del: ask_rounds.simps)
qed


lemma rounds_cover_remaining:
  assumes "\<forall>r\<in>set rounds. 0 < requested st (snd (snd r))"
    and "int (length (remaining_indices_to_ask st))
           \<le> (\<Sum>r\<leftarrow>rounds. requested st (snd (snd r)))"
    and "length (remaining_indices_to_ask st) \<le> length (active_indices st)"
  shows "\<exists>chosen st'. ask_rounds rounds st = Inr (chosen, st')
           \<and> set (remaining_indices_to_ask st) \<subseteq> set chosen"
  using assms
proof (induction rounds arbitrary: st)
  case Nil
  then show ?case by simp
next
  case (Cons r rounds)
  obtain key1 key2 arg where r: "r = (key1, key2, arg)" by (cases r) auto
  let ?R = "remaining_indices_to_ask st"
  define n where "n = min (requested st arg) (int (length (active_indices st)))"
  define c1 where "c1 = fst (indices_to_ask key1 key2 n st)"
  define st1 where "st1 = snd (indices_to_ask key1 key2 n st)"
  from Cons.prems(1) r have pos: "0 < requested st arg" by simp
  have act: "active_indices st1 = active_indices st"
    unfolding st1_def by (rule indices_to_ask_active)
  have same: "\<And>a. requested st1 a = requested st a"
    by (rule requested_active [OF act])
  have pos1: "\<forall>r\<in>set rounds. 0 < requested st1 (snd (snd r))"
    using Cons.prems(1) by (simp add: same)
  have n0: "0 \<le> n" using pos by (simp add: n_def)
  have step: "\<And>later st2. ask_rounds rounds st1 = Inr (later, st2) \<Longrightarrow>
                ask_rounds (r # rounds) st = Inr (c1 @ later, st2)"
    unfolding r c1_def st1_def n_def
    by (simp add: ask_rounds_Cons [OF pos] del: ask_rounds.simps)
  show ?case
  proof (cases "n \<le> int (length ?R)")
    case True
    have c1: "c1 = take (nat n) (sort_key key1 ?R)"
      and r1: "remaining_indices_to_ask st1 = drop (nat n) (sort_key key1 ?R)"
      unfolding c1_def st1_def by (rule indices_to_ask_small [OF n0 True])+
    have len1: "int (length (remaining_indices_to_ask st1)) = int (length ?R) - n"
      using True n0 by (simp add: r1)
    have sum1: "int (length (remaining_indices_to_ask st1))
                  \<le> (\<Sum>r\<leftarrow>rounds. requested st1 (snd (snd r)))"
    proof (cases "requested st arg \<le> int (length (active_indices st))")
      case True
      then have "n = requested st arg" by (simp add: n_def)
      then show ?thesis using Cons.prems(2) by (simp add: len1 r same)
    next
      case False
      then have "n = int (length (active_indices st))" by (simp add: n_def)
      with True Cons.prems(3) have "int (length (remaining_indices_to_ask st1)) = 0"
        by (simp add: len1)
      moreover have "0 \<le> (\<Sum>r\<leftarrow>rounds. requested st1 (snd (snd r)))"
        using pos1 by (intro sum_list_nonneg) auto
      ultimately show ?thesis by simp
    qed
    have le1: "length (remaining_indices_to_ask st1) \<le> length (active_indices st1)"
      using Cons.prems(3) by (simp add: r1 act)
    from Cons.IH [OF pos1 sum1 le1] obtain later st2
      where run: "ask_rounds rounds st1 = Inr (later, st2)"
        and cov: "set (remaining_indices_to_ask st1) \<subseteq> set later"
      by blast
    have "set ?R = set (take (nat n) (sort_key key1 ?R)) \<union> set (drop (nat n) (sort_key key1 ?R))"
      by (metis append_take_drop_id set_append set_sort)
    with cov have "set ?R \<subseteq> set (c1 @ later)" by (auto simp: c1 r1)
    with step [OF run] show ?thesis by blast
  next
    case False
    from ask_rounds_total [OF pos1] obtain later st2
      where run: "ask_rounds rounds st1 = Inr (later, st2)" by blast
    have "c1 = sort_key key1 ?R @ take (nat n - length ?R) (sort_key key2 (active_indices st))"
      unfolding c1_def by (rule indices_to_ask_large(1) [OF False])
    then have "set ?R \<subseteq> set (c1 @ later)" by auto
    with step [OF run] show ?thesis by blast
  qed
qed


lemma set_take_append_subset: "set (take k xs) \<subseteq> set (take k (xs @ ys))"
  by simp

lemma sort_key_suffix:
  assumes "sort_key key xs = pre @ suf"
  shows "sort_key key suf = suf"
proof -
  have "sorted (map key (pre @ suf))" using assms by (metis sorted_sort_key)
  then have "sorted (map key suf)" by (simp add: sorted_append)
  then show ?thesis by (rule sort_key_id_if_sorted)
qed

lemma rounds_cover_cyclic:
  assumes "\<forall>r\<in>set rounds. fst r = key \<and> fst (snd r) = key \<and> 0 < requested st (snd (snd r))"
    and "sort_key key (active_indices st) = pre @ remaining_indices_to_ask st"
    and "int m \<le> (\<Sum>r\<leftarrow>rounds. requested st (snd (snd r)))"
    and "m \<le> length (active_indices st)"
  shows "\<exists>chosen st'. ask_rounds rounds st = Inr (chosen, st')
           \<and> set (take m (remaining_indices_to_ask st @ pre)) \<subseteq> set chosen"
  using assms
proof (induction rounds arbitrary: st pre m)
  case Nil
  then show ?case by simp
next
  case (Cons r rounds)
  obtain arg where r: "r = (key, key, arg)" using Cons.prems(1) by (cases r) auto
  let ?R = "remaining_indices_to_ask st"
  let ?S = "sort_key key (active_indices st)"
  define n where "n = min (requested st arg) (int (length (active_indices st)))"
  define c1 where "c1 = fst (indices_to_ask key key n st)"
  define st1 where "st1 = snd (indices_to_ask key key n st)"
  define m1 where "m1 = m - nat n"
  from Cons.prems(1) r have pos: "0 < requested st arg" by simp
  have act: "active_indices st1 = active_indices st"
    unfolding st1_def by (rule indices_to_ask_active)
  have same: "\<And>a. requested st1 a = requested st a"
    by (rule requested_active [OF act])
  have pos1: "\<forall>r\<in>set rounds. fst r = key \<and> fst (snd r) = key \<and> 0 < requested st1 (snd (snd r))"
    using Cons.prems(1) by (simp add: same)
  have n0: "0 \<le> n" using pos by (simp add: n_def)
  have step: "\<And>later st2. ask_rounds rounds st1 = Inr (later, st2) \<Longrightarrow>
                ask_rounds (r # rounds) st = Inr (c1 @ later, st2)"
    unfolding r c1_def st1_def n_def
    by (simp add: ask_rounds_Cons [OF pos] del: ask_rounds.simps)
  have sortedR: "sort_key key ?R = ?R" by (rule sort_key_suffix [OF Cons.prems(2)])
  have lenS: "length (active_indices st) = length pre + length ?R"
    using arg_cong [OF Cons.prems(2), of length] by simp
  have nonneg: "0 \<le> (\<Sum>r\<leftarrow>rounds. requested st1 (snd (snd r)))"
    using pos1 by (intro sum_list_nonneg) auto
  have sum1: "int m1 \<le> (\<Sum>r\<leftarrow>rounds. requested st1 (snd (snd r)))"
  proof (cases "requested st arg \<le> int (length (active_indices st))")
    case True
    then have "n = requested st arg" by (simp add: n_def)
    moreover have "int m \<le> requested st arg + (\<Sum>r\<leftarrow>rounds. requested st1 (snd (snd r)))"
      using Cons.prems(3) by (simp add: r same)
    ultimately show ?thesis using n0 nonneg unfolding m1_def by arith
  next
    case False
    then have "n = int (length (active_indices st))" by (simp add: n_def)
    with Cons.prems(4) have "m1 = 0" by (simp add: m1_def)
    with nonneg show ?thesis by simp
  qed
  have le1: "m1 \<le> length (active_indices st1)"
    using Cons.prems(4) by (simp add: m1_def act)
  show ?case
  proof (cases "n \<le> int (length ?R)")
    case True
    have c1: "c1 = take (nat n) ?R"
      and r1: "remaining_indices_to_ask st1 = drop (nat n) ?R"
      unfolding c1_def st1_def
      using indices_to_ask_small [OF n0 True, of key key] by (simp_all add: sortedR)
    have inv1: "sort_key key (active_indices st1) = (pre @ take (nat n) ?R) @ remaining_indices_to_ask st1"
      by (simp add: act r1 Cons.prems(2))
    from Cons.IH [OF pos1 inv1 sum1 le1] obtain later st2
      where run: "ask_rounds rounds st1 = Inr (later, st2)"
        and cov: "set (take m1 (remaining_indices_to_ask st1 @ pre @ take (nat n) ?R)) \<subseteq> set later"
      by auto
    have len: "length (take (nat n) ?R) = nat n" using True by simp
    have "?R @ pre = take (nat n) ?R @ (drop (nat n) ?R @ pre)" by simp
    then have "take m (?R @ pre) = take m (take (nat n) ?R) @ take m1 (drop (nat n) ?R @ pre)"
      by (metis len m1_def take_append)
    moreover have "set (take m1 (drop (nat n) ?R @ pre)) \<subseteq> set later"
      using cov set_take_append_subset [of m1 "drop (nat n) ?R @ pre" "take (nat n) ?R"]
      by (simp add: r1)
    moreover have "set (take m (take (nat n) ?R)) \<subseteq> set c1"
      unfolding c1 by (rule set_take_subset)
    ultimately have "set (take m (?R @ pre)) \<subseteq> set (c1 @ later)" by auto
    with step [OF run] show ?thesis by blast
  next
    case False
    define v where "v = nat n - length ?R"
    have v: "v \<le> length pre" using lenS by (simp add: v_def n_def)
    have c1: "c1 = ?R @ take v pre"
      and r1: "remaining_indices_to_ask st1 = drop v pre @ ?R"
      unfolding c1_def st1_def v_def [symmetric]
      using indices_to_ask_large [OF False, of key key] v
      by (simp_all add: sortedR Cons.prems(2) v_def [symmetric])
    have inv1: "sort_key key (active_indices st1) = take v pre @ remaining_indices_to_ask st1"
      by (simp add: act r1 Cons.prems(2))
    from Cons.IH [OF pos1 inv1 sum1 le1] obtain later st2
      where run: "ask_rounds rounds st1 = Inr (later, st2)"
        and cov: "set (take m1 (remaining_indices_to_ask st1 @ take v pre)) \<subseteq> set later"
      by auto
    have len: "length (?R @ take v pre) = nat n" using v False by (simp add: v_def)
    have "?R @ pre = (?R @ take v pre) @ drop v pre" by simp
    then have "take m (?R @ pre) = take m (?R @ take v pre) @ take m1 (drop v pre)"
      by (metis len m1_def take_append)
    moreover have "set (take m1 (drop v pre)) \<subseteq> set later"
      using cov set_take_append_subset [of m1 "drop v pre" "?R @ take v pre"]
      by (simp add: r1)
    moreover have "set (take m (?R @ take v pre)) \<subseteq> set c1"
      unfolding c1 by (rule set_take_subset)
    ultimately have "set (take m (?R @ pre)) \<subseteq> set (c1 @ later)" by auto
    with step [OF run] show ?thesis by blast
  qed
qed

text \<open>
  \<open>ask\<close> samples from the kernels that \<open>_indices_to_ask\<close> chose, in that order, and
  nothing else writes the remaining pool: the chosen indices of \<open>ask_rounds\<close> are those
  of the \<open>ask\<close> calls.
\<close>

lemma ask_loop_fields:
  "ask_loop env chosen res st = Inr (res', st') \<Longrightarrow>
     map fst (offspring st') = map fst (offspring st) @ chosen
   \<and> remaining_indices_to_ask st' = remaining_indices_to_ask st
   \<and> active_indices st' = active_indices st"
proof (induction chosen arbitrary: res st)
  case Nil
  then show ?case by simp
next
  case (Cons ikernel rest)
  then obtain k where "py_nth (kernels st) ikernel = Inr k"
    and run: "ask_loop env rest (res @ kernel_ask env (core k))
       (st\<lparr>offspring := offspring st @ [(ikernel, kernel_ask env (core k))]\<rparr>) = Inr (res', st')"
    by (auto simp: Let_def split: sum.splits)
  from Cons.IH [OF run] show ?case by simp
qed

lemma ask_chooses:
  assumes "ask env key1 key2 arg st = Inr (res, st')"
  shows "\<exists>n. clipped st arg = Inr n
           \<and> map fst (offspring st') = fst (indices_to_ask key1 key2 n st)
           \<and> remaining_indices_to_ask st'
               = remaining_indices_to_ask (snd (indices_to_ask key1 key2 n st))
           \<and> active_indices st' = active_indices st"
proof -
  from assms obtain n incs where n: "clipped st arg = Inr n"
    and loop: "ask_loop env (fst (indices_to_ask key1 key2 n (st\<lparr>offspring := []\<rparr>))) incs
                 (snd (indices_to_ask key1 key2 n (st\<lparr>offspring := []\<rparr>))) = Inr (res, st')"
    by (auto simp: ask_def Let_def case_prod_beta split: sum.splits)
  have same: "fst (indices_to_ask key1 key2 n (st\<lparr>offspring := []\<rparr>))
                = fst (indices_to_ask key1 key2 n st)"
    "remaining_indices_to_ask (snd (indices_to_ask key1 key2 n (st\<lparr>offspring := []\<rparr>)))
       = remaining_indices_to_ask (snd (indices_to_ask key1 key2 n st))"
    "active_indices (snd (indices_to_ask key1 key2 n (st\<lparr>offspring := []\<rparr>))) = active_indices st"
    "offspring (snd (indices_to_ask key1 key2 n (st\<lparr>offspring := []\<rparr>))) = []"
    by (simp_all add: indices_to_ask_def Let_def)
  from ask_loop_fields [OF loop] n show ?thesis by (simp add: same)
qed

lemma p6_start_fields:
  "remaining_indices_to_ask p6_start = [0, 1, 2]" "active_indices p6_start = [0, 1, 2]"
  by (simp_all add: p6_start_def)

lemma mid_cycle_fields:
  "remaining_indices_to_ask mid_cycle = [2]" "active_indices mid_cycle = [0, 1, 2]"
  by (simp_all add: mid_cycle_def p6_start_def)

text \<open>
  Claim C2. For every call of \<open>_indices_to_ask\<close> with a positive \<open>number_to_ask\<close>: the
  remaining pool is sorted by the ordering key; if \<open>number_to_ask\<close> is at most the length
  of the sorted pool, the chosen indices are its first \<open>number_to_ask\<close> elements and the
  new remaining pool is the rest; otherwise the chosen indices are the whole sorted pool
  followed by the first \<open>number_to_ask - len(pool)\<close> elements of the active indices
  sorted by the ordering key, and the new remaining pool is the unconsumed tail of that
  second sort. Nothing else of the state changes.
\<close>

theorem indices_to_ask_spec:
  assumes "0 < n"
  shows "(n \<le> int (length (remaining_indices_to_ask st)) \<longrightarrow>
            fst (indices_to_ask key1 key2 n st)
              = take (nat n) (sort_key key1 (remaining_indices_to_ask st)) \<and>
            snd (indices_to_ask key1 key2 n st)
              = st\<lparr>remaining_indices_to_ask :=
                     drop (nat n) (sort_key key1 (remaining_indices_to_ask st))\<rparr>) \<and>
         (\<not> n \<le> int (length (remaining_indices_to_ask st)) \<longrightarrow>
            fst (indices_to_ask key1 key2 n st)
              = sort_key key1 (remaining_indices_to_ask st)
                @ take (nat n - length (remaining_indices_to_ask st))
                    (sort_key key2 (active_indices st)) \<and>
            snd (indices_to_ask key1 key2 n st)
              = st\<lparr>remaining_indices_to_ask :=
                     drop (nat n - length (remaining_indices_to_ask st))
                       (sort_key key2 (active_indices st))\<rparr>)"
  using assms
  by (auto simp: indices_to_ask_def Let_def slice_to_pos slice_from_pos nat_diff_distrib)

text \<open>
  The theorem at the start of P6 with \<open>sort_decreasing\<close>, once with the full pool and
  once with the pool \<open>[0]\<close>, which is shorter than the request.
\<close>

theorem indices_to_ask_spec_witness:
  "fst (indices_to_ask sort_decreasing sort_decreasing 2 p6_start) = [2, 1]
   \<and> remaining_indices_to_ask (snd (indices_to_ask sort_decreasing sort_decreasing 2 p6_start)) = [0]
   \<and> fst (indices_to_ask sort_decreasing sort_decreasing 2
            (p6_start\<lparr>remaining_indices_to_ask := [0]\<rparr>)) = [0, 2]
   \<and> remaining_indices_to_ask (snd (indices_to_ask sort_decreasing sort_decreasing 2
            (p6_start\<lparr>remaining_indices_to_ask := [0]\<rparr>))) = [1, 0]"
proof -
  have pos: "(0::int) < 2" by simp
  have st: "remaining_indices_to_ask p6_start = [0, 1, 2]" "active_indices p6_start = [0, 1, 2]"
    by (simp_all add: p6_start_def)
  from indices_to_ask_spec [OF pos, of p6_start sort_decreasing sort_decreasing]
    indices_to_ask_spec [OF pos, of "p6_start\<lparr>remaining_indices_to_ask := [0]\<rparr>"
      sort_decreasing sort_decreasing]
  show ?thesis by (simp add: st sort_decreasing_def)
qed

text \<open>
  Claim C3, as amended. Take consecutive \<open>ask\<close> calls with positive \<open>number_to_ask\<close>
  between which the active indices do not change, and whose summed \<open>number_to_ask\<close>
  reaches the number of active kernels. If the calls start in a state whose remaining
  pool holds exactly the active indices (as after construction), then for every ordering
  key, also one that returns fresh values at every sort as \<open>sort_random\<close> does, every
  active index is chosen at least once. The same holds from a state in the middle of a
  cycle, where the remaining pool is a trailing segment of the key-sorted active indices
  (every state that \<open>ask\<close> calls alone reach from construction), when the ordering key
  is a function of the index.
\<close>

theorem scheduler_fairness:
  assumes positive: "\<forall>r\<in>set rounds. 0 < requested st (snd (snd r))"
    and enough: "int (length (active_indices st)) \<le> (\<Sum>r\<leftarrow>rounds. requested st (snd (snd r)))"
    and start: "mset (remaining_indices_to_ask st) = mset (active_indices st)
         \<or> (\<exists>key pre. (\<forall>r\<in>set rounds. fst r = key \<and> fst (snd r) = key)
               \<and> sort_key key (active_indices st) = pre @ remaining_indices_to_ask st)"
  shows "\<exists>chosen st'. ask_rounds rounds st = Inr (chosen, st')
           \<and> set (active_indices st) \<subseteq> set chosen"
  using start
proof
  assume full: "mset (remaining_indices_to_ask st) = mset (active_indices st)"
  then have len: "length (remaining_indices_to_ask st) = length (active_indices st)"
    by (rule mset_eq_length)
  from full have sets: "set (remaining_indices_to_ask st) = set (active_indices st)"
    by (rule mset_eq_setD)
  from rounds_cover_remaining [OF positive] enough len
  show ?thesis by (simp add: sets)
next
  assume "\<exists>key pre. (\<forall>r\<in>set rounds. fst r = key \<and> fst (snd r) = key)
               \<and> sort_key key (active_indices st) = pre @ remaining_indices_to_ask st"
  then obtain key pre where keys: "\<forall>r\<in>set rounds. fst r = key \<and> fst (snd r) = key"
    and cyc: "sort_key key (active_indices st) = pre @ remaining_indices_to_ask st"
    by blast
  have all: "\<forall>r\<in>set rounds. fst r = key \<and> fst (snd r) = key \<and> 0 < requested st (snd (snd r))"
    using keys positive by simp
  have len: "length (active_indices st) = length (remaining_indices_to_ask st @ pre)"
    using arg_cong [OF cyc, of length] by simp
  from rounds_cover_cyclic [OF all cyc enough order_refl] obtain chosen st'
    where run: "ask_rounds rounds st = Inr (chosen, st')"
      and cov: "set (take (length (active_indices st)) (remaining_indices_to_ask st @ pre))
                  \<subseteq> set chosen"
    by blast
  have "set (active_indices st) = set (pre @ remaining_indices_to_ask st)"
    using arg_cong [OF cyc, of set] by simp
  with cov have "set (active_indices st) \<subseteq> set chosen" unfolding len by auto
  with run show ?thesis by blast
qed

text \<open>
  The two cases of the theorem: random key values from the start of P6, and
  \<open>sort_increasing\<close> from the middle of a cycle.
\<close>

theorem scheduler_fairness_witness:
  "(\<exists>chosen st'. ask_rounds [(draw_b, draw_b, Num 2), (draw_c, draw_c, Num 1)] p6_start
                    = Inr (chosen, st')
        \<and> set (active_indices p6_start) \<subseteq> set chosen)
   \<and> (\<exists>chosen st'. ask_rounds [(sort_increasing, sort_increasing, Num 2),
                                (sort_increasing, sort_increasing, Num 1)] mid_cycle
                    = Inr (chosen, st')
        \<and> set (active_indices mid_cycle) \<subseteq> set chosen)"
proof
  show "\<exists>chosen st'. ask_rounds [(draw_b, draw_b, Num 2), (draw_c, draw_c, Num 1)] p6_start
                    = Inr (chosen, st')
        \<and> set (active_indices p6_start) \<subseteq> set chosen"
    by (rule scheduler_fairness) (simp_all add: requested_def p6_start_fields)
next
  have "sort_key sort_increasing (active_indices mid_cycle)
          = [0, 1] @ remaining_indices_to_ask mid_cycle"
    by (simp add: mid_cycle_fields sort_increasing_def)
  then show "\<exists>chosen st'. ask_rounds [(sort_increasing, sort_increasing, Num 2),
                                (sort_increasing, sort_increasing, Num 1)] mid_cycle
                    = Inr (chosen, st')
        \<and> set (active_indices mid_cycle) \<subseteq> set chosen"
    by (intro scheduler_fairness disjI2 exI [of _ sort_increasing] exI [of _ "[0, 1]"])
       (simp_all add: requested_def mid_cycle_fields)
qed

text \<open>
  Claim C3 as stated fails for the default key \<open>sort_random\<close> in the middle of a cycle.
  With three active kernels and the remaining pool \<open>[2]\<close>, \<open>ask(2)\<close> takes the pool and
  refills from a fresh random order of all active indices, which may start with \<open>2\<close>
  again; \<open>ask(1)\<close> then takes \<open>0\<close>. The requests sum to three, and kernel \<open>1\<close> was
  never chosen.
\<close>

theorem scheduler_fairness_counterexample:
  "requested mid_cycle (Num 2) + requested mid_cycle (Num 1)
     = int (length (active_indices mid_cycle))
   \<and> fst (projr (ask_rounds [(draw_b, draw_b, Num 2), (draw_c, draw_c, Num 1)] mid_cycle))
       = [2, 2, 0]
   \<and> 1 \<in> set (active_indices mid_cycle)
   \<and> 1 \<notin> set (fst (projr (ask_rounds [(draw_b, draw_b, Num 2), (draw_c, draw_c, Num 1)]
                              mid_cycle)))"
proof -
  have run: "fst (projr (ask_rounds [(draw_b, draw_b, Num 2), (draw_c, draw_c, Num 1)] mid_cycle))
       = [2, 2, 0]"
    by (simp add: clipped_def requested_def indices_to_ask_def Let_def mid_cycle_fields
        draw_b_def draw_c_def slice_to_def slice_from_def slice_bound_def)
  show ?thesis unfolding run by (simp add: requested_def mid_cycle_fields)
qed

section \<open>\<open>RankPenalizedFitness\<close>\<close>


lemma times_feas_same:
  assumes "length g = length feas"
  shows "times_feas feas (map (\<lambda>v. v \<le> 0) g)
           = Inr (map (\<lambda>i. feas ! i \<and> g ! i \<le> 0) [0..<length feas])"
  using assms by (auto simp: times_feas_def intro!: nth_equalityI)

lemma constraints_loop_shaped:
  assumes "\<forall>g\<in>set gs. length g = length feas"
  shows "constraints_loop ranks' gs feas acc
           = Inr (map (\<lambda>i. feas ! i \<and> list_all (\<lambda>g. g ! i \<le> 0) gs) [0..<length feas],
                  acc @ map (g_ranks_of ranks') gs)"
  using assms
proof (induction gs arbitrary: feas acc)
  case Nil
  show ?case by (simp add: map_nth)
next
  case (Cons g gs)
  let ?feas' = "map (\<lambda>i. feas ! i \<and> g ! i \<le> 0) [0..<length feas]"
  have len: "length g = length feas" using Cons.prems by simp
  have "\<forall>g\<in>set gs. length g = length ?feas'" using Cons.prems by simp
  from Cons.IH [OF this]
  show ?case by (simp add: times_feas_same [OF len] conj_assoc)
qed

lemma rank_sum_ok:
  assumes "\<forall>gr\<in>set grl. i < length gr"
  shows "rank_sum grl i = Inr (\<Sum>gr\<leftarrow>grl. gr ! i)"
  using assms by (induction grl) (simp_all add: py_nth_def py_index_def)

lemma penalize_loop_ok:
  assumes "\<forall>i\<in>set is. rank_sum grl i = Inr (s i) \<and> penalized_value self srt k (s i) = Inr (v i)"
  shows "penalize_loop self srt k grl is f = Inr (fold (\<lambda>i f. f[i := v i]) is f)"
  using assms by (induction "is" arbitrary: f) simp_all

lemma fold_update_length: "length (fold (\<lambda>i f. f[i := v i]) is f) = length f"
  by (induction "is" arbitrary: f) simp_all

lemma fold_update_nth:
  assumes "i < length f"
  shows "fold (\<lambda>i f. f[i := v i]) is f ! i = (if i \<in> set is then v i else f ! i)"
  using assms
proof (induction "is" arbitrary: f)
  case Nil
  show ?case by simp
next
  case (Cons a "is")
  then show ?case by (cases "a = i") (auto simp: fold_update_length)
qed


lemma length_filter_upt: "length (filter P [0..<n]) = card {k. k < n \<and> P k}"
proof -
  have "{x. P x} \<inter> set [0..<n] = {k. k < n \<and> P k}" by auto
  then show ?thesis by (simp add: distinct_length_filter)
qed

lemma length_ranks_zero_based: "length (ranks_zero_based a) = length a"
  by (simp add: ranks_zero_based_def)

lemma ranks_zero_based_nth:
  "i < length a \<Longrightarrow>
     ranks_zero_based a ! i
       = int (card {k. k < length a \<and> (a ! k < a ! i \<or> (a ! k = a ! i \<and> k < i))})"
  by (simp add: ranks_zero_based_def length_filter_upt)

lemma nb_feasible_card: "nb_feasible g = card {k. k < length g \<and> g ! k \<le> 0}"
  by (simp add: nb_feasible_def length_filter_conv_card)

text \<open>
  The counted ranks are the ranks that sorting the positions yields: the position of \<open>i\<close>
  in the stable sort is the number of entries that are smaller, or equal at an earlier
  position.
\<close>

lemma index_of_split: "x \<notin> set pre \<Longrightarrow> index_of (pre @ x # post) x = length pre"
  by (induction pre) (auto simp: index_of_def)

lemma filter_upt_split:
  assumes "i < n" "P i"
  shows "filter P [0..<n] = filter P [0..<i] @ i # filter P [Suc i..<n]"
proof -
  have "[0..<n] = [0..<i] @ [i..<n]"
    using assms(1) upt_add_eq_append [of 0 i "n - i"] by simp
  also have "[i..<n] = i # [Suc i..<n]"
    using assms(1) by (rule upt_conv_Cons)
  finally show ?thesis using assms(2) by simp
qed

lemma argsort_position:
  assumes i: "i < length a"
  shows "index_of (argsort a) i
           = length (filter (\<lambda>k. a ! k < a ! i \<or> (a ! k = a ! i \<and> k < i)) [0..<length a])"
proof -
  let ?n = "length a" and ?f = "\<lambda>k. a ! k"
  let ?ys = "argsort a"
  let ?P = "\<lambda>k. a ! k = a ! i"
  have set_ys: "set ?ys = {0..<?n}" by (simp add: argsort_def)
  have dist: "distinct ?ys" by (simp add: argsort_def)
  have srt: "sorted (map ?f ?ys)" by (simp add: argsort_def)
  from i set_ys have "i \<in> set ?ys" by simp
  then obtain pre post where ys: "?ys = pre @ i # post" by (auto dest: split_list)
  with dist have ipre: "i \<notin> set pre" and ipost: "i \<notin> set post" and dpre: "distinct pre"
    by auto
  have before: "\<forall>k\<in>set pre. a ! k \<le> a ! i" and after: "\<forall>k\<in>set post. a ! i \<le> a ! k"
    using srt unfolding ys by (auto simp: sorted_append)
  have stable: "filter ?P ?ys = filter ?P [0..<?n]"
    unfolding argsort_def by (rule sort_key_stable)
  have "filter ?P pre @ i # filter ?P post = filter ?P [0..<i] @ i # filter ?P [Suc i..<?n]"
    using stable filter_upt_split [OF i, of ?P] by (simp add: ys)
  moreover have "i \<notin> set (filter ?P pre)" "i \<notin> set (filter ?P post)"
    using ipre ipost by simp_all
  ultimately have eq: "filter ?P pre = filter ?P [0..<i]"
    by (simp add: append_Cons_eq_iff)
  have "set pre = {k. k < ?n \<and> (a ! k < a ! i \<or> (a ! k = a ! i \<and> k < i))}"
  proof (intro set_eqI iffI)
    fix k assume k: "k \<in> set pre"
    then have "k \<in> set ?ys" by (simp add: ys)
    then have kn: "k < ?n" using set_ys by simp
    from k before have le: "a ! k \<le> a ! i" by blast
    have "k < i" if "a ! k = a ! i"
    proof -
      from k that have "k \<in> set (filter ?P pre)" by simp
      then have "k \<in> set (filter ?P [0..<i])" by (simp only: eq)
      then show ?thesis by simp
    qed
    with le kn show "k \<in> {k. k < ?n \<and> (a ! k < a ! i \<or> (a ! k = a ! i \<and> k < i))}"
      by (auto simp: less_le)
  next
    fix k assume "k \<in> {k. k < ?n \<and> (a ! k < a ! i \<or> (a ! k = a ! i \<and> k < i))}"
    then have kn: "k < ?n" and c: "a ! k < a ! i \<or> (a ! k = a ! i \<and> k < i)" by auto
    from c show "k \<in> set pre"
    proof
      assume lt: "a ! k < a ! i"
      have "k \<in> set ?ys" using kn set_ys by simp
      then have "k \<in> set pre \<or> k = i \<or> k \<in> set post" by (auto simp: ys)
      moreover have "k \<noteq> i" using lt by auto
      moreover have "k \<notin> set post"
      proof
        assume "k \<in> set post"
        with after have "a ! i \<le> a ! k" by blast
        with lt show False by simp
      qed
      ultimately show ?thesis by blast
    next
      assume "a ! k = a ! i \<and> k < i"
      then have "k \<in> set (filter ?P [0..<i])" by simp
      then have "k \<in> set (filter ?P pre)" by (simp only: eq)
      then show ?thesis by simp
    qed
  qed
  then have "length pre = card {k. k < ?n \<and> (a ! k < a ! i \<or> (a ! k = a ! i \<and> k < i))}"
    using distinct_card [OF dpre] by simp
  then show ?thesis by (simp add: ys index_of_split [OF ipre] length_filter_upt)
qed

lemma ranks_by_argsort_zero_based: "ranks_by_argsort a = ranks_zero_based a"
  by (simp add: ranks_by_argsort_def ranks_zero_based_def argsort_position)

lemma rank_infeasible:
  assumes "i < length g" "g ! i > 0"
  shows "int (nb_feasible g) \<le> ranks_zero_based g ! i"
proof -
  have "{k. k < length g \<and> g ! k \<le> 0}
          \<subseteq> {k. k < length g \<and> (g ! k < g ! i \<or> (g ! k = g ! i \<and> k < i))}"
    using assms(2) by auto
  then have "card {k. k < length g \<and> g ! k \<le> 0}
               \<le> card {k. k < length g \<and> (g ! k < g ! i \<or> (g ! k = g ! i \<and> k < i))}"
    by (intro card_mono) auto
  then show ?thesis by (simp add: ranks_zero_based_nth [OF assms(1)] nb_feasible_card)
qed

lemma rank_feasible:
  assumes "i < length g" "g ! i \<le> 0"
  shows "ranks_zero_based g ! i < int (nb_feasible g)"
proof -
  have "{k. k < length g \<and> (g ! k < g ! i \<or> (g ! k = g ! i \<and> k < i))}
          \<subset> {k. k < length g \<and> g ! k \<le> 0}"
    using assms by (auto simp: psubset_eq)
  then have "card {k. k < length g \<and> (g ! k < g ! i \<or> (g ! k = g ! i \<and> k < i))}
               < card {k. k < length g \<and> g ! k \<le> 0}"
    by (intro psubset_card_mono) auto
  then show ?thesis by (simp add: ranks_zero_based_nth [OF assms(1)] nb_feasible_card)
qed

lemma g_ranks_of_nth:
  assumes "i < length g"
  shows "g_ranks_of ranks_zero_based g ! i = penalty_contribution g i"
proof (cases "g ! i > 0")
  case True
  with rank_infeasible [OF assms] show ?thesis
    using assms
    by (simp add: g_ranks_of_def penalty_contribution_def length_ranks_zero_based
        nb_feasible_def Let_def)
next
  case False
  then have "g ! i \<le> 0" by simp
  from rank_feasible [OF assms this] False show ?thesis
    using assms
    by (simp add: g_ranks_of_def penalty_contribution_def length_ranks_zero_based
        nb_feasible_def Let_def)
qed

lemma length_g_ranks_of: "length (g_ranks_of ranks_zero_based g) = length g"
  by (simp add: g_ranks_of_def length_ranks_zero_based Let_def)

lemma penalty_contribution_pos:
  "i < length g \<Longrightarrow> g ! i > 0 \<Longrightarrow> 1 \<le> penalty_contribution g i"
  using rank_infeasible [of i g] by (simp add: penalty_contribution_def)

lemma penalty_contribution_nonneg: "i < length g \<Longrightarrow> 0 \<le> penalty_contribution g i"
  using rank_infeasible [of i g] by (simp add: penalty_contribution_def)

lemma rank_mono:
  assumes "i < length g" "g ! i \<le> v"
  shows "ranks_zero_based g ! i \<le> ranks_zero_based (g[i := v]) ! i"
proof -
  let ?g' = "g[i := v]"
  have "{k. k < length g \<and> (g ! k < g ! i \<or> (g ! k = g ! i \<and> k < i))}
          \<subseteq> {k. k < length ?g' \<and> (?g' ! k < ?g' ! i \<or> (?g' ! k = ?g' ! i \<and> k < i))}"
    using assms by (auto simp: nth_list_update)
  then have "card {k. k < length g \<and> (g ! k < g ! i \<or> (g ! k = g ! i \<and> k < i))}
          \<le> card {k. k < length ?g' \<and> (?g' ! k < ?g' ! i \<or> (?g' ! k = ?g' ! i \<and> k < i))}"
    by (intro card_mono) auto
  moreover have "i < length ?g'" using assms(1) by simp
  ultimately show ?thesis
    using ranks_zero_based_nth [OF assms(1)] ranks_zero_based_nth [of i ?g'] by simp
qed

lemma nb_feasible_update:
  assumes "i < length g" "(g ! i \<le> 0) = (v \<le> 0)"
  shows "nb_feasible (g[i := v]) = nb_feasible g"
proof -
  have "{k. k < length (g[i := v]) \<and> g[i := v] ! k \<le> 0} = {k. k < length g \<and> g ! k \<le> 0}"
    using assms by (auto simp: nth_list_update split: if_splits)
  then show ?thesis by (simp add: nb_feasible_card)
qed

lemma penalty_contribution_mono:
  assumes "i < length g" "0 < g ! i" "g ! i \<le> v"
  shows "penalty_contribution g i \<le> penalty_contribution (g[i := v]) i"
proof -
  have "nb_feasible (g[i := v]) = nb_feasible g"
    using assms by (intro nb_feasible_update) auto
  with rank_mono [OF assms(1,3)] assms show ?thesis
    by (simp add: penalty_contribution_def)
qed


lemma f_from_index_order_statistic:
  "f_from_index self fs k = order_statistic (f_current_best self) fs k"
proof (cases "fs = []")
  case True
  then show ?thesis by (simp add: f_from_index_def order_statistic_def)
next
  case False
  then have len: "0 < length fs" by simp
  show ?thesis
  proof (cases "k < length fs")
    case True
    then have "min (int (length fs) - 1) (int k) = int k" by simp
    moreover have "max (int k - (int (length fs) - 1)) 0 = 0" using True by simp
    ultimately show ?thesis using False True len
      by (simp add: f_from_index_def order_statistic_def Let_def)
  next
    case nlt: False
    have h1: "min (int (length fs) - 1) (int k) = int (length fs - 1)"
      using nlt len by arith
    have h2: "max (int k - (int (length fs) - 1)) 0 = int (k - (length fs - 1))"
      using nlt len by arith
    have h3: "\<not> int (length fs) - 1 < 0" using len by arith
    show ?thesis
      unfolding f_from_index_def order_statistic_def Let_def h1 h2
      using False nlt h3 by (simp add: last_conv_nth)
  qed
qed

lemma interpolate_interpolated:
  assumes "0 \<le> j"
  shows "interpolate self fs j = interpolated (f_current_best self) fs j"
proof -
  have fl: "0 \<le> \<lfloor>j\<rfloor>" and ce: "0 \<le> \<lceil>j\<rceil>" using assms by simp_all
  have le: "\<lfloor>j\<rfloor> \<le> \<lceil>j\<rceil>" by (rule floor_le_ceiling)
  have "(nat \<lfloor>j\<rfloor> < nat \<lceil>j\<rceil>) = (\<lfloor>j\<rfloor> < \<lceil>j\<rceil>)" using fl ce by arith
  also have "\<dots> = (\<lfloor>j\<rfloor> \<noteq> \<lceil>j\<rceil>)" using le by linarith
  finally have gt: "(nat \<lceil>j\<rceil> > nat \<lfloor>j\<rfloor>) = (\<lfloor>j\<rfloor> \<noteq> \<lceil>j\<rceil>)" .
  have r1: "real (nat \<lfloor>j\<rfloor>) = of_int \<lfloor>j\<rfloor>" using fl by simp
  have r2: "real (nat \<lceil>j\<rceil>) = of_int \<lceil>j\<rceil>" using ce by simp
  show ?thesis
    unfolding interpolate_def interpolated_def Let_def gt r1 r2 f_from_index_order_statistic
    by simp
qed

lemma order_statistic_mono:
  assumes "sorted fs" "k \<le> k'"
  shows "order_statistic r fs k \<le> order_statistic r fs k'"
proof (cases "fs = []")
  case True
  then show ?thesis using assms(2) by (simp add: order_statistic_def)
next
  case False
  then have len: "0 < length fs" by simp
  have last: "last fs = fs ! (length fs - 1)" using False by (rule last_conv_nth)
  consider "k' < length fs" | "k < length fs" "\<not> k' < length fs" | "\<not> k < length fs"
    by blast
  then show ?thesis
  proof cases
    case 1
    then show ?thesis using assms False
      by (simp add: order_statistic_def sorted_nth_mono)
  next
    case 2
    have "fs ! k \<le> fs ! (length fs - 1)"
      using assms(1) 2(1) len by (intro sorted_nth_mono) auto
    then show ?thesis using 2 False by (simp add: order_statistic_def last)
  next
    case 3
    then show ?thesis using assms(2) False by (simp add: order_statistic_def)
  qed
qed

lemma interpolated_bounds:
  assumes "sorted fs" "0 \<le> j"
  shows "order_statistic r fs (nat \<lfloor>j\<rfloor>) \<le> interpolated r fs j"
    and "interpolated r fs j \<le> order_statistic r fs (nat \<lceil>j\<rceil>)"
proof -
  let ?A = "order_statistic r fs (nat \<lfloor>j\<rfloor>)"
  let ?B = "order_statistic r fs (nat \<lceil>j\<rceil>)"
  have AB: "?A \<le> ?B"
    by (intro order_statistic_mono [OF assms(1)] nat_mono floor_le_ceiling)
  have both: "?A \<le> interpolated r fs j \<and> interpolated r fs j \<le> ?B"
  proof (cases "\<lfloor>j\<rfloor> = \<lceil>j\<rceil>")
    case True
    then show ?thesis by (simp add: interpolated_def)
  next
    case False
    then have c: "\<lceil>j\<rceil> = \<lfloor>j\<rfloor> + 1" by (simp add: ceiling_altdef split: if_splits)
    define t where "t = j - of_int \<lfloor>j\<rfloor>"
    have t: "0 \<le> t" "t \<le> 1" unfolding t_def by linarith+
    have eq: "interpolated r fs j = t * ?B + (1 - t) * ?A"
      using False by (simp add: interpolated_def c t_def)
    have "interpolated r fs j = ?A + t * (?B - ?A)" unfolding eq by (simp add: algebra_simps)
    moreover have "0 \<le> t * (?B - ?A)" using t AB by simp
    moreover have "interpolated r fs j = ?B - (1 - t) * (?B - ?A)"
      unfolding eq by (simp add: algebra_simps)
    moreover have "0 \<le> (1 - t) * (?B - ?A)" using t AB by simp
    ultimately show ?thesis by linarith
  qed
  from both show "?A \<le> interpolated r fs j" and "interpolated r fs j \<le> ?B" by simp_all
qed

lemma interpolated_mono:
  assumes "sorted fs" "0 \<le> j" "j \<le> j'"
  shows "interpolated r fs j \<le> interpolated r fs j'"
proof (cases "\<lceil>j\<rceil> \<le> \<lfloor>j'\<rfloor>")
  case True
  have "interpolated r fs j \<le> order_statistic r fs (nat \<lceil>j\<rceil>)"
    by (rule interpolated_bounds [OF assms(1,2)])
  also have "\<dots> \<le> order_statistic r fs (nat \<lfloor>j'\<rfloor>)"
    by (intro order_statistic_mono [OF assms(1)] nat_mono True)
  also have "\<dots> \<le> interpolated r fs j'"
    using assms by (intro interpolated_bounds) auto
  finally show ?thesis .
next
  case False
  have f1: "\<lfloor>j\<rfloor> \<le> \<lfloor>j'\<rfloor>" by (rule floor_mono [OF assms(3)])
  have c1: "\<lceil>j\<rceil> \<le> \<lfloor>j\<rfloor> + 1" by (simp add: ceiling_altdef)
  have c2: "\<lceil>j\<rceil> \<le> \<lceil>j'\<rceil>" by (rule ceiling_mono [OF assms(3)])
  have c3: "\<lceil>j'\<rceil> \<le> \<lfloor>j'\<rfloor> + 1" by (simp add: ceiling_altdef)
  from False f1 c1 c2 c3 have same: "\<lfloor>j'\<rfloor> = \<lfloor>j\<rfloor>" "\<lceil>j\<rceil> = \<lfloor>j\<rfloor> + 1" "\<lceil>j'\<rceil> = \<lfloor>j\<rfloor> + 1"
    by linarith+
  let ?A = "order_statistic r fs (nat \<lfloor>j\<rfloor>)"
  let ?B = "order_statistic r fs (nat (\<lfloor>j\<rfloor> + 1))"
  have AB: "?A \<le> ?B" by (intro order_statistic_mono [OF assms(1)] nat_mono) simp
  have e1: "interpolated r fs j = (j - of_int \<lfloor>j\<rfloor>) * ?B + (of_int \<lfloor>j\<rfloor> + 1 - j) * ?A"
    using same by (simp add: interpolated_def)
  have e2: "interpolated r fs j' = (j' - of_int \<lfloor>j\<rfloor>) * ?B + (of_int \<lfloor>j\<rfloor> + 1 - j') * ?A"
    using same by (simp add: interpolated_def)
  have "interpolated r fs j' - interpolated r fs j = (j' - j) * (?B - ?A)"
    unfolding e1 e2 by (simp add: algebra_simps)
  moreover have "0 \<le> (j' - j) * (?B - ?A)" using assms(3) AB by simp
  ultimately show ?thesis by linarith
qed


lemma sum_list_ge_member:
  assumes "\<forall>x\<in>set xs. (0::int) \<le> h x" "y \<in> set xs"
  shows "h y \<le> (\<Sum>x\<leftarrow>xs. h x)"
  using assms
proof (induction xs)
  case Nil
  then show ?case by simp
next
  case (Cons a xs)
  have nn: "0 \<le> (\<Sum>x\<leftarrow>xs. h x)" using Cons.prems(1) by (intro sum_list_nonneg) auto
  show ?case
  proof (cases "y = a")
    case True
    with nn show ?thesis by simp
  next
    case False
    with Cons have "h y \<le> (\<Sum>x\<leftarrow>xs. h x)" by simp
    moreover have "0 \<le> h a" using Cons.prems(1) by simp
    ultimately show ?thesis by simp
  qed
qed

lemma penalty_sum_pos:
  assumes "\<forall>g\<in>set gs. i < length g" "\<not> globally_feasible gs i"
  shows "1 \<le> (\<Sum>g\<leftarrow>gs. penalty_contribution g i)"
proof -
  from assms(2) obtain g where g: "g \<in> set gs" "0 < g ! i"
    by (auto simp: globally_feasible_def list_all_iff not_le)
  have "1 \<le> penalty_contribution g i"
    using assms(1) g by (intro penalty_contribution_pos) auto
  also have "\<dots> \<le> (\<Sum>g\<leftarrow>gs. penalty_contribution g i)"
    using assms(1) g(1) by (intro sum_list_ge_member) (auto intro: penalty_contribution_nonneg)
  finally show ?thesis .
qed

lemma call_shaped:
  fixes self :: rank_penalized_fitness
  defines "f \<equiv> f_values self" and "gs \<equiv> g_list_values self"
  defines "fs \<equiv> feasible_f_values f gs"
  defines "lvl \<equiv> (\<lambda>i. max (base_prctile self * (real (length fs) - 1)
                  + g_scale self * (real_of_int (\<Sum>g\<leftarrow>gs. penalty_contribution g i) - 1)) 0)"
  defines "out \<equiv> map (\<lambda>i. if globally_feasible gs i then f ! i
                           else interpolate (remember self fs) fs (lvl i)) [0..<length f]"
  assumes shape: "\<forall>g\<in>set gs. length g = length f" and scale: "0 \<le> g_scale self"
  shows "call ranks_zero_based self = Inr (out, (remember self fs)\<lparr>f_values := out\<rparr>)"
proof -
  let ?n = "length f"
  let ?F = "map (\<lambda>i. replicate ?n True ! i \<and> list_all (\<lambda>g. g ! i \<le> 0) gs) [0..<?n]"
  let ?grl = "map (g_ranks_of ranks_zero_based) gs"
  have loop1: "constraints_loop ranks_zero_based gs (replicate ?n True) [] = Inr (?F, ?grl)"
    using constraints_loop_shaped [of gs "replicate ?n True" ranks_zero_based "[]"] shape
    by simp
  have idx: "filter (\<lambda>i. ?F ! i) [0..<?n] = filter (globally_feasible gs) [0..<?n]"
    by (rule filter_cong) (auto simp: globally_feasible_def)
  have srt: "sort (map (\<lambda>i. f ! i) (filter (globally_feasible gs) [0..<?n])) = fs"
    by (simp add: fs_def feasible_f_values_def)
  have len_idx: "length (filter (globally_feasible gs) [0..<?n]) = length fs"
    by (simp add: fs_def feasible_f_values_def)
  let ?inf = "filter (\<lambda>i. i \<notin> set (filter (globally_feasible gs) [0..<?n])) [0..<?n]"
  have inf: "\<And>i. i \<in> set ?inf \<longleftrightarrow> i < ?n \<and> \<not> globally_feasible gs i" by auto
  define s where "s = (\<lambda>i. \<Sum>g\<leftarrow>gs. penalty_contribution g i)"
  define v where "v = (\<lambda>i. interpolate (remember self fs) fs (lvl i))"
  have base: "base_prctile (remember self fs) = base_prctile self"
    and sc: "g_scale (remember self fs) = g_scale self"
    by (simp_all add: remember_def split: list.splits)
  have each: "\<forall>i\<in>set ?inf. rank_sum ?grl i = Inr (s i)
                \<and> penalized_value (remember self fs) fs (length fs) (s i) = Inr (v i)"
  proof
    fix i assume "i \<in> set ?inf"
    then have i: "i < ?n" and nf: "\<not> globally_feasible gs i" by (simp_all add: inf)
    have "rank_sum ?grl i = Inr (\<Sum>gr\<leftarrow>?grl. gr ! i)"
      using shape i by (intro rank_sum_ok) (simp add: length_g_ranks_of)
    also have "(\<Sum>gr\<leftarrow>?grl. gr ! i) = s i"
      unfolding s_def map_map comp_def
      using shape i by (intro arg_cong [where f = sum_list] map_cong refl g_ranks_of_nth) simp
    finally have rs: "rank_sum ?grl i = Inr (s i)" .
    have "1 \<le> s i" unfolding s_def using shape i nf by (intro penalty_sum_pos) auto
    then have "0 \<le> g_scale self * (real_of_int (s i) - 1)" using scale by simp
    then have "penalized_value (remember self fs) fs (length fs) (s i) = Inr (v i)"
      by (simp add: penalized_value_def Let_def base sc v_def lvl_def s_def)
    with rs show "rank_sum ?grl i = Inr (s i)
                \<and> penalized_value (remember self fs) fs (length fs) (s i) = Inr (v i)" by simp
  qed
  have loop2: "penalize_loop (remember self fs) fs (length fs) ?grl ?inf f
                 = Inr (fold (\<lambda>i f. f[i := v i]) ?inf f)"
    by (rule penalize_loop_ok [OF each])
  have out: "fold (\<lambda>i f. f[i := v i]) ?inf f = out"
  proof (rule nth_equalityI)
    show "length (fold (\<lambda>i f. f[i := v i]) ?inf f) = length out"
      by (simp add: fold_update_length out_def)
  next
    fix i assume "i < length (fold (\<lambda>i f. f[i := v i]) ?inf f)"
    then have i: "i < ?n" by (simp add: fold_update_length)
    show "fold (\<lambda>i f. f[i := v i]) ?inf f ! i = out ! i"
      unfolding fold_update_nth [OF i] inf using i by (simp add: out_def v_def)
  qed
  show ?thesis
    unfolding call_def Let_def f_def [symmetric] gs_def [symmetric] loop1
    by (simp only: sum.case prod.case idx srt len_idx loop2 out)
qed


lemma order_statistic_remembered:
  "fs \<noteq> [] \<Longrightarrow> order_statistic r fs k = order_statistic r' fs k"
  by (simp add: order_statistic_def)

lemma interpolated_remembered:
  "fs \<noteq> [] \<Longrightarrow> interpolated r fs j = interpolated r' fs j"
  by (simp add: interpolated_def order_statistic_remembered [of fs r _ r'])

lemma interpolate_remember:
  assumes "0 \<le> j"
  shows "interpolate (remember self fs) fs j = interpolated (f_current_best self) fs j"
proof (cases "fs = []")
  case True
  then show ?thesis by (simp add: remember_def interpolate_interpolated [OF assms])
next
  case False
  show ?thesis
    unfolding interpolate_interpolated [OF assms]
    by (rule interpolated_remembered [OF False])
qed

lemma penalty_level_nonneg: "0 \<le> penalty_level f gs i"
  by (simp add: penalty_level_def)

text \<open>
  Claim C4, as amended. For every batch that gives each constraint one value per
  candidate, \<open>__call__\<close> returns a list as long as the batch. Each constraint's penalty
  contribution for a candidate is the zero-based ascending rank of the candidate's value
  over the whole batch (equal values ranked by position) minus the number of candidates
  feasible under that constraint plus 1, which is at least 1, when the candidate is
  infeasible under the constraint (value \<open>> 0\<close>), and 0 when it is feasible. A globally
  feasible candidate keeps its f-value. A globally infeasible candidate gets the linear
  interpolation between the \<open>floor(j)\<close>-th and the \<open>ceil(j)\<close>-th order statistic of the
  sorted feasible f-values, where \<open>j = 0.2 * (num_feasible - 1) + 1.01 * (sum of its
  penalty contributions - 1)\<close>, clamped to \<open>j \<ge> 0\<close>; beyond the feasible count the order
  statistics continue from the largest feasible value plus the integer excess over the
  last position, and with no feasible candidate they are the remembered best feasible
  value plus the position. The remembered value is the object's \<open>f_current_best\<close>: 0 at
  construction, overwritten with the best feasible f-value by every call that has one.
  Floats are idealised as reals.
\<close>

theorem rank_penalized_values:
  fixes self :: rank_penalized_fitness
  defines "f \<equiv> f_values self" and "gs \<equiv> g_list_values self"
  assumes "base_prctile self = 2 / 10" and "g_scale self = 101 / 100"
    and shape: "\<forall>g\<in>set gs. length g = length f"
  shows "\<exists>out self'.
           call ranks_zero_based self = Inr (out, self')
         \<and> length out = length f
         \<and> f_current_best self'
             = (case feasible_f_values f gs of [] \<Rightarrow> f_current_best self | best # _ \<Rightarrow> best)
         \<and> (\<forall>i<length f.
               out ! i =
                 (if globally_feasible gs i then f ! i
                  else interpolated (f_current_best self) (feasible_f_values f gs)
                         (penalty_level f gs i)))
         \<and> (\<forall>g\<in>set gs. \<forall>i<length f.
               g_ranks_of ranks_zero_based g ! i = penalty_contribution g i
             \<and> (0 < g ! i \<longrightarrow> 1 \<le> penalty_contribution g i)
             \<and> (g ! i \<le> 0 \<longrightarrow> penalty_contribution g i = 0))"
proof -
  let ?fs = "feasible_f_values f gs"
  let ?lvl = "\<lambda>i. max (base_prctile self * (real (length ?fs) - 1)
                  + g_scale self * (real_of_int (\<Sum>g\<leftarrow>gs. penalty_contribution g i) - 1)) 0"
  let ?out = "map (\<lambda>i. if globally_feasible gs i then f ! i
                           else interpolate (remember self ?fs) ?fs (?lvl i)) [0..<length f]"
  have run: "call ranks_zero_based self = Inr (?out, (remember self ?fs)\<lparr>f_values := ?out\<rparr>)"
    unfolding f_def gs_def
    by (rule call_shaped) (use assms in \<open>simp_all add: f_def gs_def\<close>)
  have lvl: "\<And>i. ?lvl i = penalty_level f gs i"
    by (simp add: penalty_level_def assms(3,4) max.commute)
  have vals: "\<forall>i<length f. ?out ! i =
                 (if globally_feasible gs i then f ! i
                  else interpolated (f_current_best self) ?fs (penalty_level f gs i))"
    by (simp add: interpolate_remember [OF penalty_level_nonneg] lvl del: max.bounded_iff)
  have best: "f_current_best ((remember self ?fs)\<lparr>f_values := ?out\<rparr>)
                = (case ?fs of [] \<Rightarrow> f_current_best self | best # _ \<Rightarrow> best)"
    by (simp add: remember_def split: list.splits)
  have pen: "\<forall>g\<in>set gs. \<forall>i<length f.
               g_ranks_of ranks_zero_based g ! i = penalty_contribution g i
             \<and> (0 < g ! i \<longrightarrow> 1 \<le> penalty_contribution g i)
             \<and> (g ! i \<le> 0 \<longrightarrow> penalty_contribution g i = 0)"
  proof (intro ballI allI impI conjI)
    fix g i assume g: "g \<in> set gs" and "i < length f"
    then have i: "i < length g" using shape by simp
    show "g_ranks_of ranks_zero_based g ! i = penalty_contribution g i"
      by (rule g_ranks_of_nth [OF i])
    show "1 \<le> penalty_contribution g i" if "0 < g ! i"
      by (rule penalty_contribution_pos [OF i that])
    show "penalty_contribution g i = 0" if "g ! i \<le> 0"
      using that by (simp add: penalty_contribution_def)
  qed
  from run vals best pen show ?thesis by (intro exI conjI) (assumption | simp)+
qed

text \<open>
  The theorem at the batch \<open>f = [0, 10, 5, 7]\<close> with the constraint values
  \<open>[-1, -1, 1, 2]\<close>: the last candidate has the penalty 2, the level \<open>j = 1.21\<close> and the
  value \<open>10.21\<close>, between the largest feasible value \<open>10\<close> and its extension \<open>11\<close>.
\<close>

theorem rank_penalized_values_witness:
  "\<exists>out self'.
      call ranks_zero_based (RankPenalizedFitness [0, 10, 5, 7] [[- 1, - 1, 1, 2]])
        = Inr (out, self')
    \<and> f_current_best self' = 0
    \<and> out ! 1 = 10
    \<and> out ! 3 = interpolated 0 [0, 10] (121 / 100)
    \<and> out ! 3 = 1021 / 100
    \<and> g_ranks_of ranks_zero_based [- 1, - 1, 1, 2] ! 3 = 2"
proof -
  let ?self = "RankPenalizedFitness [0, 10, 5, 7] [[- 1, - 1, 1, 2]]"
  have fs: "feasible_f_values [0, 10, 5, 7] [[- 1, - 1, 1, 2]] = [0, 10]"
    by code_simp
  have lvl: "penalty_level [0, 10, 5, 7] [[- 1, - 1, 1, 2]] 3 = 121 / 100"
    by code_simp
  have gf: "globally_feasible [[- 1, - 1, 1, 2]] 1" "\<not> globally_feasible [[- 1, - 1, 1, 2]] 3"
    by (simp_all add: globally_feasible_def)
  have pen: "penalty_contribution [- 1, - 1, 1, 2] 3 = 2" by code_simp
  have val: "interpolated 0 [0, 10] (121 / 100) = 1021 / 100" by code_simp
  have "base_prctile ?self = 2 / 10" "g_scale ?self = 101 / 100"
    "\<forall>g\<in>set (g_list_values ?self). length g = length (f_values ?self)"
    by (simp_all add: RankPenalizedFitness_def)
  from rank_penalized_values [OF this] obtain out self'
    where run: "call ranks_zero_based ?self = Inr (out, self')"
      and best: "f_current_best self'
             = (case feasible_f_values (f_values ?self) (g_list_values ?self) of
                  [] \<Rightarrow> f_current_best ?self | best # _ \<Rightarrow> best)"
      and vals: "\<forall>i<length (f_values ?self).
               out ! i =
                 (if globally_feasible (g_list_values ?self) i then f_values ?self ! i
                  else interpolated (f_current_best ?self)
                         (feasible_f_values (f_values ?self) (g_list_values ?self))
                         (penalty_level (f_values ?self) (g_list_values ?self) i))"
      and pens: "\<forall>g\<in>set (g_list_values ?self). \<forall>i<length (f_values ?self).
               g_ranks_of ranks_zero_based g ! i = penalty_contribution g i
             \<and> (0 < g ! i \<longrightarrow> 1 \<le> penalty_contribution g i)
             \<and> (g ! i \<le> 0 \<longrightarrow> penalty_contribution g i = 0)"
    by blast
  have sel: "f_values ?self = [0, 10, 5, 7]" "g_list_values ?self = [[- 1, - 1, 1, 2]]"
    "f_current_best ?self = 0"
    by (simp_all add: RankPenalizedFitness_def)
  from best have b: "f_current_best self' = 0" by (simp add: sel fs)
  have v1: "out ! 1 = 10"
    using vals [rule_format, of 1] gf(1) by (simp add: sel)
  have v3: "out ! 3 = interpolated 0 [0, 10] (121 / 100)"
    using vals [rule_format, of 3] gf(2) by (simp add: sel fs lvl)
  have p3: "g_ranks_of ranks_zero_based [- 1, - 1, 1, 2] ! 3 = 2"
    using pens [rule_format, of "[- 1, - 1, 1, 2]" 3] by (simp add: sel pen)
  from run b v1 v3 p3 show ?thesis by (simp add: val)
qed

text \<open>
  Claim C4 as stated fails at the same batch. The source's \<open>g_ranks\<close> are \<open>[0, 0, 1, 2]\<close>
  with the zero-based ranks of the \<open>cma\<close> package, and \<open>[0, 1, 2, 3]\<close> if its ranks were
  one-based; the claim's one-based rank minus the feasible count plus 1 gives
  \<open>[0, 0, 2, 3]\<close>. And the order statistic at position 2 of the feasible values
  \<open>[0, 10]\<close> is \<open>11\<close> in the source, the largest value plus the excess, where the claim's
  best value plus the excess is \<open>1\<close>.
\<close>

theorem rank_penalized_values_counterexample:
  "g_ranks_of ranks_zero_based [- 1, - 1, 1, 2] = [0, 0, 1, 2]
   \<and> g_ranks_of ranks_one_based [- 1, - 1, 1, 2] = [0, 1, 2, 3]
   \<and> map (claimed_penalty_contribution [- 1, - 1, 1, 2]) [0, 1, 2, 3] = [0, 0, 2, 3]
   \<and> f_from_index (RankPenalizedFitness [0, 10, 5, 7] [[- 1, - 1, 1, 2]]) [0, 10] 2 = 11
   \<and> claimed_order_statistic 0 [0, 10] 2 = 1
   \<and> fst (projr (call ranks_zero_based (RankPenalizedFitness [0, 10, 5, 7] [[- 1, - 1, 1, 2]])))
       = [0, 10, 2, 1021 / 100]"
  by code_simp

text \<open>
  Claim C5. For every batch in which every constraint has one value per candidate and
  every constraint value is \<open>\<le> 0\<close>, the output of \<open>RankPenalizedFitness\<close> is the list
  of the input f-values, entry for entry, whatever the ranks are.
\<close>

theorem penalty_identity:
  assumes "\<forall>g\<in>set gs. length g = length f \<and> (\<forall>v\<in>set g. v \<le> 0)"
  shows "\<exists>self'. call ranks' (RankPenalizedFitness f gs) = Inr (f, self')"
proof -
  let ?n = "length f"
  let ?self = "RankPenalizedFitness f gs"
  have gf: "\<And>i. i < ?n \<Longrightarrow> list_all (\<lambda>g. g ! i \<le> 0) gs"
    using assms by (auto simp: list_all_iff)
  have F: "map (\<lambda>i. replicate ?n True ! i \<and> list_all (\<lambda>g. g ! i \<le> 0) gs) [0..<?n]
             = replicate ?n True"
    by (rule nth_equalityI) (simp_all add: gf)
  have loop1: "constraints_loop ranks' gs (replicate ?n True) []
                 = Inr (replicate ?n True, map (g_ranks_of ranks') gs)"
    using constraints_loop_shaped [of gs "replicate ?n True" ranks' "[]"] assms
    by (simp add: F)
  have idx: "filter (\<lambda>i. replicate ?n True ! i) [0..<?n] = [0..<?n]"
    by (simp add: filter_id_conv)
  have inf: "filter (\<lambda>i. i \<notin> set [0..<?n]) [0..<?n] = []"
    by (simp add: filter_empty_conv)
  show ?thesis
    by (simp add: call_def Let_def RankPenalizedFitness_def loop1 idx inf)
qed


theorem penalty_identity_witness:
  "\<exists>self'. call ranks_zero_based
              (RankPenalizedFitness [3, 1, 2] [[- 1, 0, - 2], [0, 0, - 5]])
            = Inr ([3, 1, 2], self')"
  by (rule penalty_identity) simp

lemma globally_feasible_update:
  assumes "c < length gs" "i < length (gs ! c)" "0 < gs ! c ! i" "0 < v"
  shows "globally_feasible (gs[c := (gs ! c)[i := v]]) k = globally_feasible gs k"
proof (cases "k = i")
  case True
  have "\<not> globally_feasible gs i"
    using assms(1,3) by (auto simp: globally_feasible_def list_all_length not_le intro!: exI [of _ c])
  moreover have "\<not> globally_feasible (gs[c := (gs ! c)[i := v]]) i"
    using assms(1,2,4)
    by (auto simp: globally_feasible_def list_all_length not_le intro!: exI [of _ c])
  ultimately show ?thesis using True by simp
next
  case False
  have "\<And>m. m < length gs \<Longrightarrow> gs[c := (gs ! c)[i := v]] ! m ! k = gs ! m ! k"
    using False assms(1) by (simp add: nth_list_update)
  then show ?thesis by (simp add: globally_feasible_def list_all_length)
qed

lemma sum_list_update_int:
  fixes xs :: "int list"
  shows "k < length xs \<Longrightarrow> sum_list (xs[k := x]) = sum_list xs + x - xs ! k"
proof (induction xs arbitrary: k)
  case Nil
  then show ?case by simp
next
  case (Cons a xs)
  then show ?case by (cases k) simp_all
qed

lemma penalty_sum_update:
  assumes "c < length gs" "i < length (gs ! c)" "0 < gs ! c ! i" "gs ! c ! i \<le> v"
  shows "(\<Sum>g\<leftarrow>gs. penalty_contribution g i)
           \<le> (\<Sum>g\<leftarrow>gs[c := (gs ! c)[i := v]]. penalty_contribution g i)"
proof -
  let ?p = "\<lambda>g. penalty_contribution g i"
  have "map ?p (gs[c := (gs ! c)[i := v]]) = (map ?p gs)[c := ?p ((gs ! c)[i := v])]"
    by (rule map_update)
  then have "sum_list (map ?p (gs[c := (gs ! c)[i := v]]))
               = sum_list (map ?p gs) + ?p ((gs ! c)[i := v]) - ?p (gs ! c)"
    using assms(1) by (simp add: sum_list_update_int)
  moreover have "?p (gs ! c) \<le> ?p ((gs ! c)[i := v])"
    by (rule penalty_contribution_mono [OF assms(2,3,4)])
  ultimately show ?thesis by linarith
qed

text \<open>
  Claim C6, as amended. For a batch that gives each constraint one value per candidate:
  raising the value \<open>gs[c][i] > 0\<close> of one constraint for one candidate, all other inputs
  held fixed, never decreases that candidate's resulting fitness value; and the value of
  an infeasible candidate is never better (smaller) than the best feasible f-value of the
  batch. Floats are idealised as reals.
\<close>

theorem penalty_monotone:
  assumes shape: "\<forall>g\<in>set gs. length g = length f"
    and c: "c < length gs" and i: "i < length f"
    and infeasible: "0 < gs ! c ! i" and more: "gs ! c ! i \<le> v"
  shows "\<exists>out self1 out' self2.
           call ranks_zero_based (RankPenalizedFitness f gs) = Inr (out, self1)
         \<and> call ranks_zero_based (RankPenalizedFitness f (gs[c := (gs ! c)[i := v]]))
             = Inr (out', self2)
         \<and> out ! i \<le> out' ! i
         \<and> (feasible_f_values f gs \<noteq> [] \<longrightarrow> hd (feasible_f_values f gs) \<le> out ! i)"
proof -
  let ?gs' = "gs[c := (gs ! c)[i := v]]"
  let ?self = "RankPenalizedFitness f gs" and ?self' = "RankPenalizedFitness f ?gs'"
  let ?fs = "feasible_f_values f gs"
  let ?s = "\<Sum>g\<leftarrow>gs. penalty_contribution g i"
  let ?s' = "\<Sum>g\<leftarrow>?gs'. penalty_contribution g i"
  let ?lvl = "max (2 / 10 * (real (length ?fs) - 1) + 101 / 100 * (real_of_int ?s - 1)) 0"
  let ?lvl' = "max (2 / 10 * (real (length ?fs) - 1) + 101 / 100 * (real_of_int ?s' - 1)) 0"
  have ic: "i < length (gs ! c)" using shape c i by simp
  have v: "0 < v" using infeasible more by simp
  have shape': "\<forall>g\<in>set ?gs'. length g = length f"
    using shape c by (auto dest!: set_update_subset_insert [THEN subsetD])
  have gf: "globally_feasible ?gs' = globally_feasible gs"
    by (rule ext) (rule globally_feasible_update [OF c ic infeasible v])
  have fs: "feasible_f_values f ?gs' = ?fs" by (simp add: feasible_f_values_def gf)
  have ninf: "\<not> globally_feasible gs i"
    using c infeasible
    by (auto simp: globally_feasible_def list_all_length not_le intro!: exI [of _ c])
  have run: "call ranks_zero_based ?self =
      Inr (map (\<lambda>i. if globally_feasible gs i then f ! i
                     else interpolate (remember ?self ?fs) ?fs
                       (max (2 / 10 * (real (length ?fs) - 1)
                        + 101 / 100 * (real_of_int (\<Sum>g\<leftarrow>gs. penalty_contribution g i) - 1)) 0))
             [0..<length f],
           (remember ?self ?fs)\<lparr>f_values := map (\<lambda>i. if globally_feasible gs i then f ! i
                     else interpolate (remember ?self ?fs) ?fs
                       (max (2 / 10 * (real (length ?fs) - 1)
                        + 101 / 100 * (real_of_int (\<Sum>g\<leftarrow>gs. penalty_contribution g i) - 1)) 0))
             [0..<length f]\<rparr>)"
    using call_shaped [of ?self] shape by (simp add: RankPenalizedFitness_def)
  have run': "call ranks_zero_based ?self' =
      Inr (map (\<lambda>i. if globally_feasible gs i then f ! i
                     else interpolate (remember ?self' ?fs) ?fs
                       (max (2 / 10 * (real (length ?fs) - 1)
                        + 101 / 100 * (real_of_int (\<Sum>g\<leftarrow>?gs'. penalty_contribution g i) - 1)) 0))
             [0..<length f],
           (remember ?self' ?fs)\<lparr>f_values := map (\<lambda>i. if globally_feasible gs i then f ! i
                     else interpolate (remember ?self' ?fs) ?fs
                       (max (2 / 10 * (real (length ?fs) - 1)
                        + 101 / 100 * (real_of_int (\<Sum>g\<leftarrow>?gs'. penalty_contribution g i) - 1)) 0))
             [0..<length f]\<rparr>)"
    using call_shaped [of ?self'] shape' by (simp add: RankPenalizedFitness_def fs gf)
  have best: "f_current_best ?self = 0" "f_current_best ?self' = 0"
    by (simp_all add: RankPenalizedFitness_def)
  have lvl0: "0 \<le> ?lvl" and lvl0': "0 \<le> ?lvl'" by simp_all
  have o: "interpolate (remember ?self ?fs) ?fs ?lvl = interpolated 0 ?fs ?lvl"
    using interpolate_remember [OF lvl0, of ?self ?fs] by (simp only: best)
  have o': "interpolate (remember ?self' ?fs) ?fs ?lvl' = interpolated 0 ?fs ?lvl'"
    using interpolate_remember [OF lvl0', of ?self' ?fs] by (simp only: best)
  have "?s \<le> ?s'" by (rule penalty_sum_update [OF c ic infeasible more])
  then have le: "?lvl \<le> ?lvl'" by (intro max.mono) simp_all
  have srt: "sorted ?fs" by (simp add: feasible_f_values_def)
  have mono: "interpolated 0 ?fs ?lvl \<le> interpolated 0 ?fs ?lvl'"
    by (rule interpolated_mono [OF srt lvl0 le])
  have low: "?fs \<noteq> [] \<longrightarrow> hd ?fs \<le> interpolated 0 ?fs ?lvl"
  proof
    assume ne: "?fs \<noteq> []"
    have "hd ?fs = order_statistic 0 ?fs 0" using ne by (simp add: order_statistic_def hd_conv_nth)
    also have "\<dots> \<le> order_statistic 0 ?fs (nat \<lfloor>?lvl\<rfloor>)"
      by (rule order_statistic_mono [OF srt]) simp
    also have "\<dots> \<le> interpolated 0 ?fs ?lvl" by (rule interpolated_bounds [OF srt lvl0])
    finally show "hd ?fs \<le> interpolated 0 ?fs ?lvl" .
  qed
  show ?thesis
    unfolding run run'
    apply (intro exI conjI)
       apply (rule refl)
      apply (rule refl)
    using i ninf mono low by (simp_all only: nth_map_upt add_0 if_False o o' diff_zero length_upt)
qed

text \<open>
  The theorem at \<open>f = [0, 10, 5, 7]\<close>, raising the third candidate's constraint value from
  1 to 3.
\<close>

theorem penalty_monotone_witness:
  "\<exists>out self1 out' self2.
      call ranks_zero_based (RankPenalizedFitness [0, 10, 5, 7] [[- 1, - 1, 1, 2]])
        = Inr (out, self1)
    \<and> call ranks_zero_based (RankPenalizedFitness [0, 10, 5, 7] [[- 1, - 1, 3, 2]])
        = Inr (out', self2)
    \<and> out ! 2 \<le> out' ! 2
    \<and> 0 \<le> out ! 2"
proof -
  have fs: "feasible_f_values [0, 10, 5, 7] [[- 1, - 1, 1, 2]] = [0, 10]"
    by code_simp
  have "\<forall>g\<in>set [[- 1, - 1, 1, 2 :: real]]. length g = length [0, 10, 5, 7 :: real]"
    "(0::nat) < length [[- 1, - 1, 1, 2 :: real]]" "(2::nat) < length [0, 10, 5, 7 :: real]"
    "(0::real) < [[- 1, - 1, 1, 2]] ! 0 ! 2" "[[- 1, - 1, 1, 2]] ! 0 ! 2 \<le> (3::real)"
    by simp_all
  from penalty_monotone [OF this] show ?thesis by (simp add: fs)
qed

text \<open>
  Claim C6 as stated fails in its second part: with \<open>f = [0, 10, 5]\<close> and the constraint
  values \<open>[-1, -1, 1]\<close> the infeasible third candidate gets the value \<open>2\<close>, the 20th
  percentile of the feasible values, which is better than the worst feasible value \<open>10\<close>.
\<close>

theorem penalty_monotone_counterexample:
  "fst (projr (call ranks_zero_based (RankPenalizedFitness [0, 10, 5] [[- 1, - 1, 1]])))
     = [0, 10, 2]
   \<and> feasible_f_values [0, 10, 5] [[- 1, - 1, 1]] = [0, 10]
   \<and> \<not> globally_feasible [[- 1, - 1, 1]] 2
   \<and> \<not> last (feasible_f_values [0, 10, 5] [[- 1, - 1, 1]])
         \<le> fst (projr (call ranks_zero_based (RankPenalizedFitness [0, 10, 5] [[- 1, - 1, 1]]))) ! 2"
  by code_simp

section \<open>The scenarios\<close>

text \<open>The operations produce the states of the scenarios.\<close>

lemma p6_init: "init p6_kernels True (Some [11 / 10, 11 / 10]) = Inr p6_start"
  by code_simp

lemma p6_ask:
  "ask toy_env sort_increasing sort_increasing (Num 2) p6_start = Inr (p6_solutions, p6_asked)"
  by code_simp

lemma p6_store:
  "store_objective_values (told_indices p6_asked) p6_objective_values 0 (kernels p6_asked)
     = Inr (kernels p6_stored)"
  by code_simp

lemma p6_tell: "tell toy_env p6_solutions p6_objective_values [] p6_asked = Inr p6_told"
  by code_simp

lemma p6_tell_restarting:
  "tell restarting_env p6_solutions p6_objective_values [] p6_asked = Inr p6_restarted"
  by code_simp

lemma p6_remove_stranger: "remove toy_env [7] p6_told = Inr p6_drifted"
  by code_simp

lemma mid_cycle_reached: "ask_rounds [(draw_a, draw_a, Num 2)] p6_start = Inr ([0, 1], mid_cycle)"
  by code_simp

lemma twin_init: "init [toy 0 [0, 0] [] None None, toy 1 [0, 0] [] None None] True
                    (Some [11 / 10, 11 / 10]) = Inr twin_start"
  by code_simp

lemma twin_ask:
  "ask toy_env sort_increasing sort_increasing (Num 1) twin_start
     = Inr (twin_solutions, twin_asked)"
  by code_simp

lemma twin_tell: "tell toy_env twin_solutions twin_objective_values [] twin_asked = Inr twin_told"
  by code_simp

lemma twin_remove: "remove toy_env [0] twin_told = Inr twin_removed"
  by code_simp

lemma toy_front_within:
  "front_contains toy_env (new_front toy_env kind vs ref) v \<Longrightarrow> v \<in> set vs"
proof -
  assume a: "front_contains toy_env (new_front toy_env kind vs ref) v"
  then obtain x where v: "v = Some x"
    and x: "x \<in> set (nondominated (map the (filter (\<lambda>v. v \<noteq> None) vs)))"
    by (auto simp: toy_env_def spec_front_def split: option.splits)
  from x have "x \<in> set (map the (filter (\<lambda>v. v \<noteq> None) vs))"
    by (simp add: nondominated_def)
  then obtain y where "y \<in> set vs" "y \<noteq> None" "x = the y" by auto
  then show ?thesis using v by auto
qed

lemma p6_fields:
  "num_kernels p6_asked = 3" "told_indices p6_asked = [0, 1, 2]"
  "map fst (offspring p6_asked) = [0, 1]" "countiter p6_asked = 0" "countevals p6_asked = 0"
  "num_kernels p6_stored = 3" "length (kernels p6_stored) = 3"
  "NDA p6_stored = Some BiobjectiveNondominatedSortedList"
  "num_kernels p6_told = 3" "length (kernels p6_told) = 3" "told_indices p6_told = [0, 1]"
  "NDA p6_told = Some BiobjectiveNondominatedSortedList"
  "countiter p6_told = 1" "countevals p6_told = 7"
  "num_kernels p6_restarted = 5" "told_indices p6_restarted = [3, 4, 0, 1]"
  "countiter p6_restarted = 1" "countevals p6_restarted = 7"
  "num_kernels p6_drifted = 2" "kernels p6_drifted = kernels p6_told"
  by (simp_all add: p6_drifted_def p6_restarted_def p6_told_def p6_stored_def p6_asked_def
      p6_start_def)

section \<open>The pool: \<open>stop\<close>, \<open>remove\<close>, \<open>tell\<close>\<close>

lemma py_index_valid: "0 \<le> i \<Longrightarrow> i < int (length xs) \<Longrightarrow> py_index xs i = Inr (nat i)"
  by (simp add: py_index_def)

lemma py_nth_valid: "0 \<le> i \<Longrightarrow> i < int (length xs) \<Longrightarrow> py_nth xs i = Inr (xs ! nat i)"
  by (simp add: py_nth_def py_index_valid)

lemma py_range_valid: "n \<le> int (length xs) \<Longrightarrow> \<forall>i\<in>set (py_range n). 0 \<le> i \<and> i < int (length xs)"
  by (auto simp: py_range_def)

lemma stop_loop_spec:
  assumes "\<forall>i\<in>set is. 0 \<le> i \<and> i < int (length ks)"
  shows "stop_loop env ks is res =
           Inr (if \<exists>i\<in>set is. stop_of env (ks ! nat i) = [] then None
                else Some (res @ map (\<lambda>i. (i, stop_of env (ks ! nat i))) is))"
  using assms
proof (induction "is" arbitrary: res)
  case Nil
  show ?case by simp
next
  case (Cons i "is")
  then have "py_nth ks i = Inr (ks ! nat i)" by (simp add: py_nth_valid)
  with Cons show ?case by simp
qed

text \<open>
  Claim C8. For every state of the pool in which \<open>num_kernels\<close> is the length of
  \<open>kernels\<close>, as the class documents it, \<open>stop()\<close> returns \<open>False\<close> if the \<open>stop()\<close> of at
  least one kernel is empty, and otherwise the dictionary that maps every kernel index to
  the termination status of that kernel.
\<close>

theorem stop_aggregation:
  assumes "num_kernels st = int (length (kernels st))"
  shows "stop env st =
           Inr (if \<exists>k\<in>set (kernels st). stop_of env k = [] then None
                else Some (map (\<lambda>i. (int i, stop_of env (kernels st ! i)))
                             [0..<length (kernels st)]))"
proof -
  let ?ks = "kernels st"
  have valid: "\<forall>i\<in>set (py_range (num_kernels st)). 0 \<le> i \<and> i < int (length ?ks)"
    using assms by (intro py_range_valid) simp
  have ex: "(\<exists>i\<in>set (py_range (num_kernels st)). stop_of env (?ks ! nat i) = [])
              = (\<exists>k\<in>set ?ks. stop_of env k = [])"
  proof
    assume "\<exists>i\<in>set (py_range (num_kernels st)). stop_of env (?ks ! nat i) = []"
    then obtain j where "j < length ?ks" "stop_of env (?ks ! j) = []"
      using assms by (auto simp: py_range_def)
    then show "\<exists>k\<in>set ?ks. stop_of env k = []" using nth_mem by blast
  next
    assume "\<exists>k\<in>set ?ks. stop_of env k = []"
    then obtain j where "j < length ?ks" "stop_of env (?ks ! j) = []"
      by (auto simp: in_set_conv_nth)
    then have "int j \<in> set (py_range (num_kernels st))" "stop_of env (?ks ! nat (int j)) = []"
      using assms by (simp_all add: py_range_def)
    then show "\<exists>i\<in>set (py_range (num_kernels st)). stop_of env (?ks ! nat i) = []" by blast
  qed
  have items: "map (\<lambda>i. (i, stop_of env (?ks ! nat i))) (py_range (num_kernels st))
                 = map (\<lambda>i. (int i, stop_of env (?ks ! i))) [0..<length ?ks]"
    using assms by (simp add: py_range_def comp_def)
  show ?thesis
    unfolding stop_def stop_loop_spec [OF valid] ex items by simp
qed

text \<open>The theorem at a pool whose kernels have all stopped, and at P6 after \<open>tell\<close>.\<close>

theorem stop_aggregation_witness:
  "stop toy_env halted = Inr (Some [(0, [(''tolx'', ''1e-4'')]), (1, [(''maxiter'', ''100'')])])
   \<and> stop toy_env p6_told = Inr None"
proof -
  have c1: "num_kernels halted = int (length (kernels halted))" by (simp add: halted_def)
  have c2: "num_kernels p6_told = int (length (kernels p6_told))"
    by (simp add: p6_fields)
  from stop_aggregation [OF c1, of toy_env] stop_aggregation [OF c2, of toy_env]
  show ?thesis
    by (simp add: halted_def p6_told_def stop_of_def toy_env_def toy_def upt_rec)
qed

lemma running_indices_ok:
  assumes "\<forall>i\<in>set is. 0 \<le> i \<and> i < int (length ks)"
  shows "running_indices env ks is = Inr (filter (\<lambda>i. stop_of env (ks ! nat i) = []) is)"
  using assms by (induction "is") (simp_all add: py_nth_valid)

lemma Suc_length_remove_object:
  "in_pool ks ident \<Longrightarrow> Suc (length (remove_object ks ident)) = length ks"
  by (induction ks) (auto simp: in_pool_def)

lemma length_remove_object:
  "in_pool ks ident \<Longrightarrow> length (remove_object ks ident) = length ks - 1"
  using Suc_length_remove_object [of ks ident] by simp

lemma remove_object_absent: "\<not> in_pool ks ident \<Longrightarrow> remove_object ks ident = ks"
  by (induction ks) (auto simp: in_pool_def)

lemma remove_loop_num:
  "remove_loop env idents st = Inr st' \<Longrightarrow>
     num_kernels st' = num_kernels st - int (length idents)"
proof (induction idents arbitrary: st)
  case Nil
  then show ?case by simp
next
  case (Cons ident idents)
  show ?case
  proof (cases "in_pool (kernels st) ident")
    case True
    with Cons.prems have
      "remove_loop env idents
         (st\<lparr>kernels := remove_object (kernels st) ident, num_kernels := num_kernels st - 1\<rparr>)
         = Inr st'"
      by (auto simp: Let_def split: sum.splits)
    from Cons.IH [OF this] show ?thesis by simp
  next
    case False
    with Cons.prems have
      "remove_loop env idents (st\<lparr>num_kernels := num_kernels st - 1\<rparr>) = Inr st'"
      by simp
    from Cons.IH [OF this] show ?thesis by simp
  qed
qed

lemma remove_loop_ok:
  assumes "NDA st = Some kind"
  shows "\<exists>st'. remove_loop env idents st = Inr st'
           \<and> NDA st' = Some kind
           \<and> int (length (kernels st)) - num_kernels st
               \<le> int (length (kernels st')) - num_kernels st'"
  using assms
proof (induction idents arbitrary: st)
  case Nil
  then show ?case by simp
next
  case (Cons ident idents)
  show ?case
  proof (cases "in_pool (kernels st) ident")
    case True
    let ?st1 = "st\<lparr>kernels := remove_object (kernels st) ident, num_kernels := num_kernels st - 1\<rparr>"
    have "NDA ?st1 = Some kind" using Cons.prems by simp
    from Cons.IH [OF this] obtain st' where
      run: "remove_loop env idents ?st1 = Inr st'" and nda: "NDA st' = Some kind"
      and gap: "int (length (kernels ?st1)) - num_kernels ?st1
                  \<le> int (length (kernels st')) - num_kernels st'"
      by blast
    have "int (length (remove_object (kernels st) ident)) = int (length (kernels st)) - 1"
      using Suc_length_remove_object [OF True] by arith
    then have "int (length (kernels st)) - num_kernels st
                 \<le> int (length (kernels st')) - num_kernels st'"
      using gap by simp
    with run nda True Cons.prems show ?thesis
      by (simp add: Let_def pareto_front_def)
  next
    case False
    let ?st1 = "st\<lparr>num_kernels := num_kernels st - 1\<rparr>"
    have "NDA ?st1 = Some kind" using Cons.prems by simp
    from Cons.IH [OF this] obtain st' where
      run: "remove_loop env idents ?st1 = Inr st'" and nda: "NDA st' = Some kind"
      and gap: "int (length (kernels ?st1)) - num_kernels ?st1
                  \<le> int (length (kernels st')) - num_kernels st'"
      by blast
    with False show ?thesis by simp
  qed
qed

text \<open>
  Claim C10. For every argument list, a \<open>remove\<close> that returns has decremented
  \<open>num_kernels\<close> once per element of the list, whether or not the element is in the pool;
  it does return when the archive class has been chosen by a first \<open>tell\<close> (before that,
  \<open>self.pareto_front\<close> raises for an element of the pool). In particular, \<open>remove\<close> with
  a kernel that is not in the pool leaves \<open>kernels\<close> as it is and decreases \<open>num_kernels\<close>
  by one, so that \<open>num_kernels\<close> differs from the length of \<open>kernels\<close> afterwards if it
  was equal before.
\<close>

theorem remove_decrements:
  assumes "num_kernels st \<le> int (length (kernels st))"
  shows "(\<forall>st'. remove env idents st = Inr st' \<longrightarrow>
            num_kernels st' = num_kernels st - int (length idents))
       \<and> (NDA st \<noteq> None \<longrightarrow>
            (\<exists>st'. remove env idents st = Inr st'
               \<and> num_kernels st' = num_kernels st - int (length idents)))
       \<and> (\<not> in_pool (kernels st) ident \<longrightarrow>
            (\<exists>st'. remove env [ident] st = Inr st'
               \<and> kernels st' = kernels st
               \<and> num_kernels st' = num_kernels st - 1
               \<and> (num_kernels st = int (length (kernels st)) \<longrightarrow>
                    num_kernels st' \<noteq> int (length (kernels st')))))"
proof (intro conjI allI impI)
  fix st' assume "remove env idents st = Inr st'"
  then obtain st1 where "remove_loop env idents st = Inr st1"
    and "num_kernels st' = num_kernels st1"
    by (auto simp: remove_def split: sum.splits)
  then show "num_kernels st' = num_kernels st - int (length idents)"
    by (simp add: remove_loop_num)
next
  assume "NDA st \<noteq> None"
  then obtain kind where "NDA st = Some kind" by auto
  from remove_loop_ok [OF this, of env idents] obtain st1 where
    run: "remove_loop env idents st = Inr st1"
    and gap: "int (length (kernels st)) - num_kernels st
                \<le> int (length (kernels st1)) - num_kernels st1"
    by blast
  have "num_kernels st1 \<le> int (length (kernels st1))" using gap assms by simp
  then have act: "running_indices env (kernels st1) (py_range (num_kernels st1))
           = Inr (filter (\<lambda>i. stop_of env (kernels st1 ! nat i) = []) (py_range (num_kernels st1)))"
    by (intro running_indices_ok py_range_valid)
  have "remove env idents st
          = Inr (st1\<lparr>active_indices :=
                   filter (\<lambda>i. stop_of env (kernels st1 ! nat i) = []) (py_range (num_kernels st1))\<rparr>)"
    by (simp only: remove_def run act sum.case)
  then show "\<exists>st'. remove env idents st = Inr st'
               \<and> num_kernels st' = num_kernels st - int (length idents)"
    using remove_loop_num [OF run] by simp
next
  assume out: "\<not> in_pool (kernels st) ident"
  let ?st1 = "st\<lparr>num_kernels := num_kernels st - 1\<rparr>"
  have "num_kernels ?st1 \<le> int (length (kernels ?st1))" using assms by simp
  then have act: "running_indices env (kernels ?st1) (py_range (num_kernels ?st1))
           = Inr (filter (\<lambda>i. stop_of env (kernels ?st1 ! nat i) = []) (py_range (num_kernels ?st1)))"
    by (intro running_indices_ok py_range_valid)
  show "\<exists>st'. remove env [ident] st = Inr st'
               \<and> kernels st' = kernels st
               \<and> num_kernels st' = num_kernels st - 1
               \<and> (num_kernels st = int (length (kernels st)) \<longrightarrow>
                    num_kernels st' \<noteq> int (length (kernels st')))"
    using out act by (simp add: remove_def)
qed

text \<open>
  The theorem at P6 after \<open>tell\<close>, with an object that is not in the pool: three kernels
  stay, \<open>num_kernels\<close> is \<open>2\<close>.
\<close>

theorem remove_decrements_witness:
  "remove toy_env [7] p6_told = Inr p6_drifted
   \<and> kernels p6_drifted = kernels p6_told
   \<and> num_kernels p6_drifted = num_kernels p6_told - 1
   \<and> num_kernels p6_told = int (length (kernels p6_told))
   \<and> num_kernels p6_drifted \<noteq> int (length (kernels p6_drifted))"
proof -
  have count: "num_kernels p6_told \<le> int (length (kernels p6_told))"
    by (simp add: p6_fields)
  have out: "\<not> in_pool (kernels p6_told) 7"
    by (simp add: in_pool_def p6_told_def toy_def)
  from remove_decrements [OF count, of toy_env "[7]" 7] out
  have "\<exists>st'. remove toy_env [7] p6_told = Inr st'
               \<and> kernels st' = kernels p6_told
               \<and> num_kernels st' = num_kernels p6_told - 1"
    by blast
  with p6_remove_stranger show ?thesis by (simp add: p6_fields)
qed

lemma other_objective_values_ok:
  assumes "\<forall>i\<in>set is. 0 \<le> i \<and> i < int (length ks)"
  shows "other_objective_values ks ikernel is
           = Inr (map (\<lambda>i. objective_values (ks ! nat i)) (filter (\<lambda>i. i \<noteq> ikernel) is))"
  using assms by (induction "is") (simp_all add: py_nth_valid)

lemma front_observed_ok:
  assumes count: "num_kernels st = int (length (kernels st))" and nda: "NDA st = Some kind"
  shows "front_observed env st ikernel
           = Inr (new_front env kind
                    (map (\<lambda>j. objective_values (kernels st ! j))
                       (filter (\<lambda>j. int j \<noteq> ikernel) [0..<length (kernels st)]))
                    (reference_point st))"
proof -
  have valid: "\<forall>i\<in>set (py_range (num_kernels st)). 0 \<le> i \<and> i < int (length (kernels st))"
    using count by (intro py_range_valid) simp
  have "map (\<lambda>i. objective_values (kernels st ! nat i))
          (filter (\<lambda>i. i \<noteq> ikernel) (py_range (num_kernels st)))
        = map (\<lambda>j. objective_values (kernels st ! j))
            (filter (\<lambda>j. int j \<noteq> ikernel) [0..<length (kernels st)])"
    by (simp add: py_range_def count filter_map comp_def)
  then show ?thesis
    by (simp add: front_observed_def other_objective_values_ok [OF valid] nda)
qed

lemma penalized_without_constraints:
  "penalized_f_values env baseline [] start n = Inr baseline"
  by (simp add: penalized_f_values_def call_def RankPenalizedFitness_def Let_def
      filter_id_conv filter_empty_conv remember_def split: list.splits)

lemma try_restart_kernels:
  "\<exists>new. kernels (try_restart env factory st) = kernels st @ new"
  by (auto simp: try_restart_def add_def add_counted_def Let_def split: option.splits sum.splits)

lemma tell_step_core:
  assumes pos: "py_index (kernels st) ikernel = Inr pos"
    and base: "baseline_f_values env st ikernel ovs start (length offspring') = Inr baseline"
    and pen: "penalized_f_values env baseline constraints_values start (length offspring') = Inr fitness"
    and step: "tell_step env ovs constraints_values (ikernel, offspring') st start = Inr st'"
  shows "core (kernels st' ! pos) = kernel_tell env (core (kernels st ! pos)) offspring' fitness"
proof -
  have len: "pos < length (kernels st)"
    using pos by (auto simp: py_index_def split: if_splits)
  define k1 where "k1 = (kernels st ! pos)\<lparr>core := kernel_tell env (core (kernels st ! pos)) offspring' fitness\<rparr>"
  define st1 where "st1 = st\<lparr>kernels := (kernels st)[pos := k1]\<rparr>"
  define last_f where "last_f = slice ovs (int start) (int start + int (length offspring'))"
  have fin: "\<And>s. pos < length (kernels s) \<Longrightarrow>
               core (kernels (store_last_f pos last_f s) ! pos) = core (kernels s ! pos)"
    by (simp add: store_last_f_def)
  have k1: "kernels st1 ! pos = k1" "length (kernels st1) = length (kernels st)"
    using len by (simp_all add: st1_def)
  have cases: "st' = store_last_f pos last_f st1
      \<or> (\<exists>active. st' = store_last_f pos last_f (st1\<lparr>active_indices := active\<rparr>))
      \<or> (\<exists>active factory.
            st' = store_last_f pos last_f (try_restart env factory (st1\<lparr>active_indices := active\<rparr>)))"
    using step
    unfolding tell_step_def Let_def fst_conv snd_conv base pos pen sum.case
      k1_def [symmetric] st1_def [symmetric] last_f_def [symmetric]
    by (auto split: if_splits sum.splits option.splits)
  have "core (kernels st' ! pos) = core k1"
  proof -
    from cases consider "st' = store_last_f pos last_f st1"
      | active where "st' = store_last_f pos last_f (st1\<lparr>active_indices := active\<rparr>)"
      | active factory where
        "st' = store_last_f pos last_f (try_restart env factory (st1\<lparr>active_indices := active\<rparr>))"
      by blast
    then show ?thesis
    proof cases
      case 1
      then show ?thesis using fin [of st1] k1 len by simp
    next
      case 2
      then show ?thesis using fin [of "st1\<lparr>active_indices := active\<rparr>"] k1 len by simp
    next
      case 3
      obtain new where new: "kernels (try_restart env factory (st1\<lparr>active_indices := active\<rparr>))
                          = kernels st1 @ new"
        using try_restart_kernels [of env factory "st1\<lparr>active_indices := active\<rparr>"] by auto
      show ?thesis
        unfolding 3 using fin [of "try_restart env factory (st1\<lparr>active_indices := active\<rparr>)"] k1 len
        by (simp add: new nth_append)
    qed
  qed
  then show ?thesis by (simp add: k1_def)
qed

text \<open>
  Claim C1. In \<open>tell\<close>, for every asked kernel \<open>ikernel\<close> with its offspring, in a state
  in which \<open>num_kernels\<close> is the length of \<open>kernels\<close> (\<open>tell\<close> has chosen the archive class
  before its loop): the baseline fitness of each offspring is the negated hypervolume
  improvement of that offspring's objective vector against the front constructed from the
  objective vectors of every kernel of the pool other than \<open>ikernel\<close>, relative to the
  current reference point. Without constraint values this baseline is the fitness that
  the kernel's \<open>tell\<close> receives.
\<close>

theorem baseline_fitness:
  assumes count: "num_kernels st = int (length (kernels st))" and nda: "NDA st = Some kind"
  shows "\<exists>baseline.
           baseline_f_values env st ikernel ovs start (length offspring') = Inr baseline
         \<and> baseline =
             map (\<lambda>point. - hypervolume_improvement env
                              (new_front env kind
                                 (map (\<lambda>j. objective_values (kernels st ! j))
                                    (filter (\<lambda>j. int j \<noteq> ikernel) [0..<length (kernels st)]))
                                 (reference_point st))
                              point)
               (slice ovs (int start) (int start + int (length offspring')))
         \<and> (\<forall>pos st'.
               py_index (kernels st) ikernel = Inr pos \<longrightarrow>
               tell_step env ovs [] (ikernel, offspring') st start = Inr st' \<longrightarrow>
               core (kernels st' ! pos)
                 = kernel_tell env (core (kernels st ! pos)) offspring' baseline)"
proof -
  let ?baseline = "map (\<lambda>point. - hypervolume_improvement env
                              (new_front env kind
                                 (map (\<lambda>j. objective_values (kernels st ! j))
                                    (filter (\<lambda>j. int j \<noteq> ikernel) [0..<length (kernels st)]))
                                 (reference_point st))
                              point)
               (slice ovs (int start) (int start + int (length offspring')))"
  have base: "baseline_f_values env st ikernel ovs start (length offspring') = Inr ?baseline"
    by (simp add: baseline_f_values_def front_observed_ok [OF count nda] Let_def comp_def)
  have "core (kernels st' ! pos) = kernel_tell env (core (kernels st ! pos)) offspring' ?baseline"
    if "py_index (kernels st) ikernel = Inr pos"
      and "tell_step env ovs [] (ikernel, offspring') st start = Inr st'" for pos st'
    by (rule tell_step_core [OF that(1) base penalized_without_constraints that(2)])
  with base show ?thesis by blast
qed

text \<open>
  The theorem inside the \<open>tell\<close> of P6, for the two asked kernels; the first body of the
  loop hands the baseline to the kernel.
\<close>

theorem baseline_fitness_witness:
  "baseline_f_values toy_env p6_stored 0 p6_objective_values 3 2 = Inr [- (3 / 25), - (9 / 200)]
   \<and> baseline_f_values toy_env p6_stored 1 p6_objective_values 5 2 = Inr [- (1 / 4), - (9 / 100)]
   \<and> (\<exists>st'. tell_step toy_env p6_objective_values []
              (0, [[1 / 10, 1 / 10], [- (1 / 10), - (1 / 10)]]) p6_stored 3 = Inr st'
        \<and> core (kernels st' ! 0)
            = kernel_tell toy_env (core (kernels p6_stored ! 0))
                [[1 / 10, 1 / 10], [- (1 / 10), - (1 / 10)]] [- (3 / 25), - (9 / 200)])"
proof -
  let ?off0 = "[[1 / 10, 1 / 10], [- (1 / 10), - (1 / 10)]] :: point list"
  let ?off1 = "[[3 / 5, 3 / 5], [2 / 5, 2 / 5]] :: point list"
  have count: "num_kernels p6_stored = int (length (kernels p6_stored))"
    by (simp add: p6_fields)
  have nda: "NDA p6_stored = Some BiobjectiveNondominatedSortedList"
    by (simp add: p6_fields)
  have v0: "map (\<lambda>point. - hypervolume_improvement toy_env
                  (new_front toy_env BiobjectiveNondominatedSortedList
                     (map (\<lambda>j. objective_values (kernels p6_stored ! j))
                        (filter (\<lambda>j. int j \<noteq> 0) [0..<length (kernels p6_stored)]))
                     (reference_point p6_stored))
                  point)
          (slice p6_objective_values (int 3) (int 3 + int (length ?off0)))
        = [- (3 / 25), - (9 / 200)]"
    by code_simp
  have v1: "map (\<lambda>point. - hypervolume_improvement toy_env
                  (new_front toy_env BiobjectiveNondominatedSortedList
                     (map (\<lambda>j. objective_values (kernels p6_stored ! j))
                        (filter (\<lambda>j. int j \<noteq> 1) [0..<length (kernels p6_stored)]))
                     (reference_point p6_stored))
                  point)
          (slice p6_objective_values (int 5) (int 5 + int (length ?off1)))
        = [- (1 / 4), - (9 / 100)]"
    by code_simp
  have pos: "py_index (kernels p6_stored) 0 = Inr 0"
    by (simp add: py_index_def p6_stored_def)
  have step: "tell_step toy_env p6_objective_values [] (0, ?off0) p6_stored 3
                = Inr (projr (tell_step toy_env p6_objective_values [] (0, ?off0) p6_stored 3))"
    by code_simp
  from baseline_fitness [OF count nda, of toy_env 0 p6_objective_values 3 ?off0]
  have b0: "baseline_f_values toy_env p6_stored 0 p6_objective_values 3 2
              = Inr [- (3 / 25), - (9 / 200)]"
    and t0: "core (kernels (projr (tell_step toy_env p6_objective_values [] (0, ?off0) p6_stored 3)) ! 0)
            = kernel_tell toy_env (core (kernels p6_stored ! 0)) ?off0 [- (3 / 25), - (9 / 200)]"
    unfolding v0 using pos step by (auto simp: numeral_2_eq_2)
  from baseline_fitness [OF count nda, of toy_env 1 p6_objective_values 5 ?off1]
  have b1: "baseline_f_values toy_env p6_stored 1 p6_objective_values 5 2
              = Inr [- (1 / 4), - (9 / 100)]"
    unfolding v1 by (auto simp: numeral_2_eq_2)
  from b0 b1 step t0 show ?thesis by blast
qed

text \<open>
  Claim C9, as amended. For every kernel \<open>k\<close> in the pool, in a state where the archive
  class has been chosen and \<open>num_kernels\<close> is the length of \<open>kernels\<close>: \<open>remove(k)\<close> returns,
  the pool is the old one without \<open>k\<close>, the length of \<open>kernels\<close> and \<open>num_kernels\<close> have
  both decreased by one, and the active indices are recomputed from the \<open>stop()\<close> of the
  remaining kernels. The front and \<open>pareto_set\<close> are then those of the remaining kernels
  (given a front class that holds only vectors it was given): the objective vector of \<open>k\<close>
  is absent from the front unless a remaining kernel has the same objective vector.
\<close>

theorem remove_member:
  assumes member: "in_pool (kernels st) ident"
    and nda: "NDA st = Some kind"
    and count: "num_kernels st = int (length (kernels st))"
    and within: "\<forall>vs ref v. front_contains env (new_front env kind vs ref) v \<longrightarrow> v \<in> set vs"
  shows "\<exists>st' front ps.
           remove env [ident] st = Inr st'
         \<and> kernels st' = remove_object (kernels st) ident
         \<and> int (length (kernels st')) = int (length (kernels st)) - 1
         \<and> num_kernels st' = num_kernels st - 1
         \<and> active_indices st'
             = filter (\<lambda>i. stop_of env (kernels st' ! nat i) = []) (py_range (num_kernels st'))
         \<and> pareto_front env st' = Inr front
         \<and> (\<forall>v. front_contains env front v \<longrightarrow> v \<in> objective_values ` set (kernels st'))
         \<and> pareto_set env st' = Inr ps
         \<and> set ps \<subseteq> (\<lambda>k. kernel_incumbent env (core k))
                        ` {k \<in> set (kernels st'). front_contains env front (objective_values k)}"
proof -
  let ?ks = "remove_object (kernels st) ident"
  let ?st2 = "st\<lparr>kernels := ?ks, num_kernels := num_kernels st - 1\<rparr>"
  let ?act = "filter (\<lambda>i. stop_of env (?ks ! nat i) = []) (py_range (num_kernels st - 1))"
  let ?st' = "?st2\<lparr>active_indices := ?act\<rparr>"
  let ?front = "new_front env kind
                  (map objective_values (filter (\<lambda>k. objective_values k \<noteq> None) ?ks))
                  (reference_point st)"
  have pos: "0 < length (kernels st)" using member by (auto simp: in_pool_def)
  have len: "int (length ?ks) = int (length (kernels st)) - 1"
    using Suc_length_remove_object [OF member] by arith
  have loop: "remove_loop env [ident] st = Inr ?st2"
    using member nda by (simp add: Let_def pareto_front_def)
  have "num_kernels ?st2 \<le> int (length (kernels ?st2))" using count len by simp
  then have act: "running_indices env (kernels ?st2) (py_range (num_kernels ?st2))
           = Inr (filter (\<lambda>i. stop_of env (kernels ?st2 ! nat i) = []) (py_range (num_kernels ?st2)))"
    by (intro running_indices_ok py_range_valid)
  have run: "remove env [ident] st = Inr ?st'"
    by (simp only: remove_def loop act sum.case) simp
  have front: "pareto_front env ?st' = Inr ?front"
    using nda by (simp add: pareto_front_def)
  have sub: "\<forall>v. front_contains env ?front v \<longrightarrow> v \<in> objective_values ` set (kernels ?st')"
  proof (intro allI impI)
    fix v assume "front_contains env ?front v"
    with within have "v \<in> set (map objective_values (filter (\<lambda>k. objective_values k \<noteq> None) ?ks))"
      by blast
    then show "v \<in> objective_values ` set (kernels ?st')" by auto
  qed
  let ?ps = "map (\<lambda>k. kernel_incumbent env (core k))
               (filter (\<lambda>k. front_contains env ?front (objective_values k)) ?ks)"
  have pset: "pareto_set env ?st' = Inr ?ps"
    by (simp add: pareto_set_def front [simplified])
  have incl: "set ?ps \<subseteq> (\<lambda>k. kernel_incumbent env (core k))
                        ` {k \<in> set (kernels ?st'). front_contains env ?front (objective_values k)}"
    by auto
  from run len front sub pset incl show ?thesis
    by (intro exI [of _ ?st'] exI [of _ ?front] exI [of _ ?ps]) simp
qed

text \<open>The theorem at P6 after \<open>tell\<close>, removing the second kernel.\<close>

theorem remove_member_witness:
  "\<exists>st' front ps.
      remove toy_env [1] p6_told = Inr st'
    \<and> int (length (kernels st')) = 2
    \<and> num_kernels st' = 2
    \<and> pareto_front toy_env st' = Inr front
    \<and> \<not> front_contains toy_env front (Some [1 / 2, 1 / 2])
    \<and> pareto_set toy_env st' = Inr ps"
proof -
  have member: "in_pool (kernels p6_told) 1"
    by (simp add: in_pool_def p6_told_def toy_def)
  have nda: "NDA p6_told = Some BiobjectiveNondominatedSortedList"
    by (simp add: p6_fields)
  have count: "num_kernels p6_told = int (length (kernels p6_told))"
    by (simp add: p6_fields)
  have within: "\<forall>vs ref v. front_contains toy_env
                   (new_front toy_env BiobjectiveNondominatedSortedList vs ref) v \<longrightarrow> v \<in> set vs"
    using toy_front_within by blast
  from remove_member [OF member nda count within] obtain st' front ps where
    run: "remove toy_env [1] p6_told = Inr st'"
    and ks: "kernels st' = remove_object (kernels p6_told) 1"
    and len: "int (length (kernels st')) = int (length (kernels p6_told)) - 1"
    and num: "num_kernels st' = num_kernels p6_told - 1"
    and front: "pareto_front toy_env st' = Inr front"
    and sub: "\<forall>v. front_contains toy_env front v \<longrightarrow> v \<in> objective_values ` set (kernels st')"
    and pset: "pareto_set toy_env st' = Inr ps"
    by blast
  have "Some [1 / 2, 1 / 2] \<notin> objective_values ` set (kernels st')"
    unfolding ks by (simp add: p6_told_def toy_def)
  with sub have "\<not> front_contains toy_env front (Some [1 / 2, 1 / 2])" by blast
  with run len num front pset show ?thesis
    by (intro exI [of _ st'] exI [of _ front] exI [of _ ps]) (simp add: p6_fields)
qed

text \<open>
  Claim C9 as stated fails when two kernels have the same objective vector, as all
  kernels created from one starting point have after the first \<open>tell\<close>: after the first of
  the twins was removed, its objective vector \<open>(0.5, 0.5)\<close> is on the front, and its
  incumbent is in \<open>pareto_set\<close>, through the second.
\<close>

theorem remove_member_counterexample:
  "remove toy_env [0] twin_told = Inr twin_removed
   \<and> kid (kernels twin_told ! 0) = 0
   \<and> objective_values (kernels twin_told ! 0) = Some [1 / 2, 1 / 2]
   \<and> kernel_incumbent toy_env (core (kernels twin_told ! 0)) = [0, 0]
   \<and> pareto_front toy_env twin_removed = Inr (Some [11 / 10, 11 / 10], [[1 / 2, 1 / 2]])
   \<and> front_contains toy_env (Some [11 / 10, 11 / 10], [[1 / 2, 1 / 2]]) (Some [1 / 2, 1 / 2])
   \<and> pareto_set toy_env twin_removed = Inr [[0, 0]]"
  by code_simp

lemma grows_refl: "grows st st"
  by (simp add: grows_def)

lemma grows_trans:
  assumes "grows a b" "grows b c"
  shows "grows a c"
proof -
  have "[num_kernels a..num_kernels c - 1]
          = [num_kernels a..num_kernels b - 1] @ [num_kernels b..num_kernels c - 1]"
  proof (cases "num_kernels b \<le> num_kernels c - 1")
    case True
    then show ?thesis using assms by (intro upto_split1) (simp_all add: grows_def)
  next
    case False
    then have "num_kernels c = num_kernels b" using assms by (simp add: grows_def)
    then show ?thesis by simp
  qed
  with assms show ?thesis by (simp add: grows_def)
qed

lemma grows_store_last_f: "grows st (store_last_f pos last_f st)"
  by (simp add: grows_def store_last_f_def)

lemma grows_try_restart:
  assumes "\<forall>s new. factory s = Some new \<longrightarrow> length new = 1"
  shows "grows st (try_restart env factory st)"
proof (cases "factory st")
  case None
  then show ?thesis by (simp add: try_restart_def grows_def)
next
  case (Some new)
  with assms have "length new = 1" by blast
  with Some show ?thesis
    by (auto simp: try_restart_def grows_def add_def add_counted_def Let_def
        split: sum.splits)
qed

lemma grows_tell_step:
  assumes single: "\<forall>factory s new. restart env = Some factory \<longrightarrow> factory s = Some new \<longrightarrow> length new = 1"
    and step: "tell_step env ovs constraints_values pair st start = Inr st'"
  shows "grows st st'"
proof -
  have mid: "\<And>ks active. grows st (st\<lparr>kernels := ks\<rparr>)
                       \<and> grows st (st\<lparr>kernels := ks, active_indices := active\<rparr>)"
    by (simp add: grows_def)
  have restart: "\<And>factory s. restart env = Some factory \<Longrightarrow> grows s (try_restart env factory s)"
    using single by (intro grows_try_restart) blast
  from step show ?thesis
    unfolding tell_step_def Let_def
    by (auto split: sum.splits if_splits option.splits
        intro!: grows_trans [OF _ grows_store_last_f]
                grows_trans [OF _ restart] mid [THEN conjunct1] mid [THEN conjunct2])
qed

lemma grows_tell_loop:
  assumes single: "\<forall>factory s new. restart env = Some factory \<longrightarrow> factory s = Some new \<longrightarrow> length new = 1"
    and loop: "tell_loop env ovs constraints_values pairs st start = Inr st'"
  shows "grows st st'"
  using loop
proof (induction pairs arbitrary: st start)
  case Nil
  then show ?case by (simp add: grows_refl)
next
  case (Cons pair pairs)
  then obtain st1 where step: "tell_step env ovs constraints_values pair st start = Inr st1"
    and rest: "tell_loop env ovs constraints_values pairs st1 (start + length (snd pair)) = Inr st'"
    by (auto split: sum.splits)
  from grows_tell_step [OF single step] Cons.IH [OF rest] show ?case by (rule grows_trans)
qed

lemma update_archive_fields:
  assumes "update_archive env ovs st = Inr st'"
  shows "told_indices st' = told_indices st \<and> num_kernels st' = num_kernels st
       \<and> countiter st' = countiter st \<and> countevals st' = countevals st
       \<and> offspring st' = offspring st"
  using assms by (auto simp: update_archive_def split: if_splits option.splits)

lemma update_hypervolume_fields:
  "told_indices (update_hypervolume h st) = told_indices st"
  "num_kernels (update_hypervolume h st) = num_kernels st"
  "countiter (update_hypervolume h st) = countiter st"
  "countevals (update_hypervolume h st) = countevals st"
  "offspring (update_hypervolume h st) = offspring st"
  by (simp_all add: update_hypervolume_def Let_def)

text \<open>
  Claim C7, as amended. After every \<open>tell\<close> with a non-empty \<open>solutions\<close> that returns,
  with a restart factory that returns one kernel at a time: the told indices are the
  indices of the kernels that the restarts of this call added, from the old
  \<open>num_kernels\<close> up to the new one, followed by the indices of the kernels asked this
  round; the told indices of before are not kept, so in P6 they are \<open>[0, 1]\<close>. The round
  counter has increased by one and the evaluation counter by the number of objective
  vectors passed.
\<close>

theorem tell_bookkeeping:
  assumes nonempty: "solutions \<noteq> []"
    and returns: "tell env solutions ovs constraints_values st = Inr st'"
    and single: "\<forall>factory s new. restart env = Some factory \<longrightarrow> factory s = Some new \<longrightarrow> length new = 1"
  shows "told_indices st' = [num_kernels st..num_kernels st' - 1] @ map fst (offspring st)
       \<and> set (told_indices st') = fst ` set (offspring st) \<union> {num_kernels st..<num_kernels st'}
       \<and> (restart env = None \<longrightarrow> told_indices st' = map fst (offspring st))
       \<and> countiter st' = countiter st + 1
       \<and> countevals st' = countevals st + int (length ovs)"
proof -
  from returns nonempty obtain kind ks st2 front st4 where
    loop: "tell_loop env ovs constraints_values (offspring st)
             (st\<lparr>NDA := Some kind, kernels := ks, told_indices := []\<rparr>)
             (length (told_indices st)) = Inr st2"
    and arch: "update_archive env ovs
                 (update_hypervolume (hypervolume env front)
                    (st2\<lparr>told_indices := told_indices st2 @ map fst (offspring st2)\<rparr>)) = Inr st4"
    and st': "st' = st4\<lparr>countiter := countiter st4 + 1,
                        countevals := countevals st4 + int (length ovs)\<rparr>"
    unfolding tell_def Let_def by (auto split: sum.splits if_splits)
  let ?st1 = "st\<lparr>NDA := Some kind, kernels := ks, told_indices := []\<rparr>"
  have g: "grows ?st1 st2" by (rule grows_tell_loop [OF single loop])
  note f = update_archive_fields [OF arch]
  have told: "told_indices st' = [num_kernels st..num_kernels st' - 1] @ map fst (offspring st)"
    using g f by (simp add: st' update_hypervolume_fields grows_def)
  have num: "num_kernels st \<le> num_kernels st'"
    using g f by (simp add: st' update_hypervolume_fields grows_def)
  have set: "set (told_indices st') = fst ` set (offspring st) \<union> {num_kernels st..<num_kernels st'}"
    unfolding told by auto
  have none: "told_indices st' = map fst (offspring st)" if "restart env = None"
  proof -
    have same: "\<And>pair s start s'. tell_step env ovs constraints_values pair s start = Inr s'
                  \<Longrightarrow> num_kernels s' = num_kernels s"
      using that unfolding tell_step_def Let_def
      by (auto simp: store_last_f_def split: sum.splits if_splits)
    have "\<And>s start s'. tell_loop env ovs constraints_values pairs s start = Inr s'
                  \<Longrightarrow> num_kernels s' = num_kernels s" for pairs
    proof (induction pairs)
      case Nil
      then show ?case by simp
    next
      case (Cons pair pairs)
      then show ?case by (auto split: sum.splits dest!: same)
    qed
    from this [OF loop] have "num_kernels st2 = num_kernels st" by simp
    then have "num_kernels st' = num_kernels st"
      using f by (simp add: st' update_hypervolume_fields)
    then show ?thesis by (simp add: told)
  qed
  have iter: "countiter st' = countiter st + 1"
    using g f by (simp add: st' update_hypervolume_fields grows_def)
  have evals: "countevals st' = countevals st + int (length ovs)"
    using g f by (simp add: st' update_hypervolume_fields grows_def)
  from told set none iter evals show ?thesis by blast
qed

text \<open>
  The theorem at P6, with solvers that stop at their first \<open>tell\<close> and are restarted
  (the told indices are \<open>[3, 4, 0, 1]\<close>), and with solvers that run on.
\<close>

theorem tell_bookkeeping_witness:
  "told_indices p6_restarted
     = [num_kernels p6_asked..num_kernels p6_restarted - 1] @ map fst (offspring p6_asked)
   \<and> told_indices p6_restarted = [3, 4, 0, 1]
   \<and> countiter p6_restarted = countiter p6_asked + 1
   \<and> countevals p6_restarted = countevals p6_asked + int (length p6_objective_values)
   \<and> told_indices p6_told = map fst (offspring p6_asked)"
proof -
  have ne: "p6_solutions \<noteq> []" by (simp add: p6_solutions_def)
  have single: "\<forall>factory s new. restart restarting_env = Some factory \<longrightarrow>
                  factory s = Some new \<longrightarrow> length new = 1"
    by (auto simp: restarting_env_def toy_env_def)
  have none: "\<forall>factory s new. restart toy_env = Some factory \<longrightarrow>
                  factory s = Some new \<longrightarrow> length new = (1::nat)"
    by (simp add: toy_env_def)
  have no_restart: "restart toy_env = None" by (simp add: toy_env_def)
  note r = tell_bookkeeping [OF ne p6_tell_restarting single]
  note t = tell_bookkeeping [OF ne p6_tell none]
  from r have "told_indices p6_restarted
     = [num_kernels p6_asked..num_kernels p6_restarted - 1] @ map fst (offspring p6_asked)"
    by blast
  moreover from r have "countiter p6_restarted = countiter p6_asked + 1"
    "countevals p6_restarted = countevals p6_asked + int (length p6_objective_values)"
    by blast+
  moreover from t no_restart have "told_indices p6_told = map fst (offspring p6_asked)"
    by blast
  ultimately show ?thesis by (simp add: p6_fields)
qed

text \<open>
  Claim C7 as stated fails in P6, which it names: after \<open>ask(2)\<close> and \<open>tell\<close> the told
  indices are \<open>[0, 1]\<close>, the asked kernels, and not \<open>{0, 1, 2}\<close>.
\<close>

theorem tell_bookkeeping_counterexample:
  "ask toy_env sort_increasing sort_increasing (Num 2) p6_start = Inr (p6_solutions, p6_asked)
   \<and> tell toy_env p6_solutions p6_objective_values [] p6_asked = Inr p6_told
   \<and> told_indices p6_asked = [0, 1, 2]
   \<and> map fst (offspring p6_asked) = [0, 1]
   \<and> told_indices p6_told = [0, 1]
   \<and> set (told_indices p6_told) \<noteq> {0, 1, 2}"
proof -
  have "(2::int) \<notin> {0, 1}" by simp
  then have "{0, 1} \<noteq> {0, 1, 2::int}" by blast
  then show ?thesis by (simp add: p6_ask p6_tell p6_fields)
qed

text \<open>
  \<open>tell\<close> never writes the remaining pool of the scheduler, and \<open>stop()\<close> reads the first
  \<open>num_kernels\<close> kernels whatever the length of the pool is.
\<close>

lemma tell_step_remaining:
  "tell_step env ovs constraints_values pair st start = Inr st' \<Longrightarrow>
     remaining_indices_to_ask st' = remaining_indices_to_ask st"
  unfolding tell_step_def Let_def
  by (auto simp: store_last_f_def try_restart_def add_def add_counted_def Let_def
      split: sum.splits if_splits option.splits)

lemma tell_loop_remaining:
  "tell_loop env ovs constraints_values pairs st start = Inr st' \<Longrightarrow>
     remaining_indices_to_ask st' = remaining_indices_to_ask st"
proof (induction pairs arbitrary: st start)
  case Nil
  then show ?case by simp
next
  case (Cons pair pairs)
  then show ?case by (auto split: sum.splits dest!: tell_step_remaining)
qed

lemma tell_remaining:
  assumes "tell env solutions ovs constraints_values st = Inr st'"
  shows "remaining_indices_to_ask st' = remaining_indices_to_ask st"
proof (cases "length solutions = 0")
  case True
  with assms show ?thesis by (simp add: tell_def)
next
  case False
  with assms obtain kind ks st2 front st4 where
    loop: "tell_loop env ovs constraints_values (offspring st)
             (st\<lparr>NDA := Some kind, kernels := ks, told_indices := []\<rparr>)
             (length (told_indices st)) = Inr st2"
    and arch: "update_archive env ovs
                 (update_hypervolume (hypervolume env front)
                    (st2\<lparr>told_indices := told_indices st2 @ map fst (offspring st2)\<rparr>)) = Inr st4"
    and st': "st' = st4\<lparr>countiter := countiter st4 + 1,
                        countevals := countevals st4 + int (length ovs)\<rparr>"
    unfolding tell_def Let_def by (auto split: sum.splits if_splits)
  have "remaining_indices_to_ask st4 = remaining_indices_to_ask st2"
    using arch
    by (auto simp: update_archive_def update_hypervolume_def Let_def split: if_splits option.splits)
  with tell_loop_remaining [OF loop] show ?thesis by (simp add: st')
qed

lemma stop_counted:
  assumes "num_kernels st \<le> int (length (kernels st))"
  shows "stop env st =
           Inr (if \<exists>k\<in>set (take (nat (num_kernels st)) (kernels st)). stop_of env k = [] then None
                else Some (map (\<lambda>i. (int i, stop_of env (kernels st ! i)))
                             [0..<nat (num_kernels st)]))"
proof -
  let ?ks = "kernels st" and ?n = "nat (num_kernels st)"
  have n: "?n \<le> length ?ks" using assms by simp
  have valid: "\<forall>i\<in>set (py_range (num_kernels st)). 0 \<le> i \<and> i < int (length ?ks)"
    using assms by (intro py_range_valid) simp
  have ex: "(\<exists>i\<in>set (py_range (num_kernels st)). stop_of env (?ks ! nat i) = [])
              = (\<exists>k\<in>set (take ?n ?ks). stop_of env k = [])"
  proof
    assume "\<exists>i\<in>set (py_range (num_kernels st)). stop_of env (?ks ! nat i) = []"
    then obtain j where j: "j < ?n" "stop_of env (?ks ! j) = []"
      by (auto simp: py_range_def)
    then have "take ?n ?ks ! j \<in> set (take ?n ?ks)" using n by (intro nth_mem) simp
    with j show "\<exists>k\<in>set (take ?n ?ks). stop_of env k = []" by auto
  next
    assume "\<exists>k\<in>set (take ?n ?ks). stop_of env k = []"
    then obtain j where "j < ?n" "stop_of env (?ks ! j) = []"
      using n by (auto simp: in_set_conv_nth)
    then have "int j \<in> set (py_range (num_kernels st))" "stop_of env (?ks ! nat (int j)) = []"
      by (simp_all add: py_range_def)
    then show "\<exists>i\<in>set (py_range (num_kernels st)). stop_of env (?ks ! nat i) = []" by blast
  qed
  have items: "map (\<lambda>i. (i, stop_of env (?ks ! nat i))) (py_range (num_kernels st))
                 = map (\<lambda>i. (int i, stop_of env (?ks ! i))) [0..<?n]"
    by (simp add: py_range_def comp_def)
  show ?thesis
    unfolding stop_def stop_loop_spec [OF valid] ex items by simp
qed

end
